theory Spec2Isabelle
  imports Complex_Main "HOL-Library.Word"
begin

unbundle bit_operations_syntax

section \<open>JavaScript values and errors\<close>

text \<open>
  Exceptions of the JavaScript runtime are values: a computation returns
  \<open>Inl e\<close> when it throws \<open>e\<close> and \<open>Inr x\<close> when it returns \<open>x\<close>.
  \<open>RangeError\<close> is what \<open>DataView\<close> and the typed-array constructors throw on
  an access outside their buffer; the functions modelled here throw nothing else.
\<close>

datatype js_error = RangeError

type_synonym bytes = "8 word list"

definition bindE :: "js_error + 'a \<Rightarrow> ('a \<Rightarrow> js_error + 'b) \<Rightarrow> js_error + 'b" where
  "bindE m f = (case m of Inl e \<Rightarrow> Inl e | Inr x \<Rightarrow> f x)"

lemma bindE_Inr [simp]: "bindE (Inr x) f = f x"
  by (simp add: bindE_def)

lemma bindE_Inl [simp]: "bindE (Inl e) f = Inl e"
  by (simp add: bindE_def)

lemma bindE_cong [fundef_cong]:
  "m = m' \<Longrightarrow> (\<And>x. m' = Inr x \<Longrightarrow> f x = f' x) \<Longrightarrow> bindE m f = bindE m' f'"
  by (cases m') (simp_all add: bindE_def)

text \<open>
  A 32-bit float is kept as its IEEE-754 bit pattern. The number \<open>0\<close> that the
  reader returns on overrun is \<open>+0.0\<close>, the pattern \<open>0\<close>; unary minus flips
  the sign bit.
\<close>

datatype float32 = Float32 (f32_bits: "32 word")

definition f32_zero :: float32 where
  "f32_zero = Float32 0"

definition f32_neg :: "float32 \<Rightarrow> float32" where
  "f32_neg x = Float32 (f32_bits x XOR 0x80000000)"

text \<open>
  A \<open>Uint8Array\<close> is a window on an \<open>ArrayBuffer\<close>: the buffer, the byte offset
  of the window and its length. \<open>new Uint8Array(0)\<close> owns a fresh empty buffer.
\<close>

record u8array =
  abuf :: bytes
  aoff :: nat
  alen :: nat

definition u8_empty :: u8array where
  "u8_empty = \<lparr>abuf = [], aoff = 0, alen = 0\<rparr>"

definition u8_bytes :: "u8array \<Rightarrow> bytes" where
  "u8_bytes a = take (alen a) (drop (aoff a) (abuf a))"

text \<open>\<open>new Uint8Array(buffer, byteOffset, length)\<close> throws when the window leaves the buffer.\<close>

definition new_Uint8Array :: "bytes \<Rightarrow> nat \<Rightarrow> nat \<Rightarrow> js_error + u8array" where
  "new_Uint8Array b start len =
     (if start + len \<le> length b then Inr \<lparr>abuf = b, aoff = start, alen = len\<rparr>
      else Inl RangeError)"

section \<open>DataView: little-endian access, throwing outside the buffer\<close>

fun le_nat :: "bytes \<Rightarrow> nat" where
  "le_nat [] = 0"
| "le_nat (b # bs) = unat b + 256 * le_nat bs"

definition getUint8 :: "bytes \<Rightarrow> nat \<Rightarrow> js_error + nat" where
  "getUint8 view pos =
     (if pos + 1 \<le> length view then Inr (le_nat (take 1 (drop pos view))) else Inl RangeError)"

definition getUint16 :: "bytes \<Rightarrow> nat \<Rightarrow> js_error + nat" where
  "getUint16 view pos =
     (if pos + 2 \<le> length view then Inr (le_nat (take 2 (drop pos view))) else Inl RangeError)"

definition getInt16 :: "bytes \<Rightarrow> nat \<Rightarrow> js_error + int" where
  "getInt16 view pos =
     (if pos + 2 \<le> length view
      then Inr (sint (word_of_nat (le_nat (take 2 (drop pos view))) :: 16 word))
      else Inl RangeError)"

definition getUint32 :: "bytes \<Rightarrow> nat \<Rightarrow> js_error + nat" where
  "getUint32 view pos =
     (if pos + 4 \<le> length view then Inr (le_nat (take 4 (drop pos view))) else Inl RangeError)"

definition getInt32 :: "bytes \<Rightarrow> nat \<Rightarrow> js_error + int" where
  "getInt32 view pos =
     (if pos + 4 \<le> length view
      then Inr (sint (word_of_nat (le_nat (take 4 (drop pos view))) :: 32 word))
      else Inl RangeError)"

definition getFloat32 :: "bytes \<Rightarrow> nat \<Rightarrow> js_error + float32" where
  "getFloat32 view pos =
     (if pos + 4 \<le> length view
      then Inr (Float32 (word_of_nat (le_nat (take 4 (drop pos view)))))
      else Inl RangeError)"

section \<open>BinaryReader\<close>

text \<open>
  A \<open>BinaryReader\<close> is built over one \<open>ArrayBuffer\<close> and never replaces it:
  \<open>view\<close>, \<open>buffer\<close> and \<open>size\<close> are fixed by the constructor and only
  \<open>offset\<close> changes. Every method therefore takes the buffer \<open>buf\<close> (with
  \<open>size = length buf\<close>) and the current offset, and returns its result with
  the new offset.
\<close>

definition canRead :: "bytes \<Rightarrow> nat \<Rightarrow> nat \<Rightarrow> bool" where
  "canRead buf off len = (off + len \<le> length buf)"

definition readUInt32 :: "bytes \<Rightarrow> nat \<Rightarrow> js_error + (nat \<times> nat)" where
  "readUInt32 buf off =
     (if \<not> canRead buf off 4 then Inr (0, length buf)
      else bindE (getUint32 buf off) (\<lambda>val. Inr (val, off + 4)))"

definition readInt32 :: "bytes \<Rightarrow> nat \<Rightarrow> js_error + (int \<times> nat)" where
  "readInt32 buf off =
     (if \<not> canRead buf off 4 then Inr (0, length buf)
      else bindE (getInt32 buf off) (\<lambda>val. Inr (val, off + 4)))"

definition readUInt16 :: "bytes \<Rightarrow> nat \<Rightarrow> js_error + (nat \<times> nat)" where
  "readUInt16 buf off =
     (if \<not> canRead buf off 2 then Inr (0, length buf)
      else bindE (getUint16 buf off) (\<lambda>val. Inr (val, off + 2)))"

definition readUInt16At :: "bytes \<Rightarrow> nat \<Rightarrow> js_error + nat" where
  "readUInt16At buf pos = (if pos + 2 > length buf then Inr 0 else getUint16 buf pos)"

definition readUInt8 :: "bytes \<Rightarrow> nat \<Rightarrow> js_error + (nat \<times> nat)" where
  "readUInt8 buf off =
     (if \<not> canRead buf off 1 then Inr (0, length buf)
      else bindE (getUint8 buf off) (\<lambda>val. Inr (val, off + 1)))"

definition readInt16 :: "bytes \<Rightarrow> nat \<Rightarrow> js_error + (int \<times> nat)" where
  "readInt16 buf off =
     (if \<not> canRead buf off 2 then Inr (0, length buf)
      else bindE (getInt16 buf off) (\<lambda>val. Inr (val, off + 2)))"

definition readShort :: "bytes \<Rightarrow> nat \<Rightarrow> js_error + (int \<times> nat)" where
  "readShort buf off = readInt16 buf off"

definition readUShort :: "bytes \<Rightarrow> nat \<Rightarrow> js_error + (nat \<times> nat)" where
  "readUShort buf off = readUInt16 buf off"

definition readFloat32 :: "bytes \<Rightarrow> nat \<Rightarrow> js_error + (float32 \<times> nat)" where
  "readFloat32 buf off =
     (if \<not> canRead buf off 4 then Inr (f32_zero, length buf)
      else bindE (getFloat32 buf off) (\<lambda>val. Inr (val, off + 4)))"

text \<open>
  \<open>readBytes\<close>: \<open>actualLen = Math.min(len, size - offset)\<close> is computed on
  integers (it is negative when the offset lies beyond the buffer).
\<close>

definition readBytes :: "bytes \<Rightarrow> nat \<Rightarrow> nat \<Rightarrow> js_error + (u8array \<times> nat)" where
  "readBytes buf off len =
     (let actualLen = min (int len) (int (length buf) - int off)
      in if actualLen \<le> 0 then Inr (u8_empty, off)
         else bindE (new_Uint8Array buf off (nat actualLen))
                (\<lambda>bs. Inr (bs, off + nat actualLen)))"

text \<open>
  \<open>readString\<close>: the string is kept as the list of its char codes. The loop
  runs \<open>i\<close> from \<open>0\<close> to \<open>len\<close>; the function below is the loop from
  index \<open>i\<close> with the string \<open>str\<close> built so far.
\<close>

function readString_loop :: "bytes \<Rightarrow> nat \<Rightarrow> nat \<Rightarrow> nat \<Rightarrow> nat list \<Rightarrow> js_error + (nat list \<times> nat)" where
  "readString_loop buf len i off str =
     (if i < len then
        (if \<not> canRead buf off 1 then Inr (str, off)
         else bindE (readUInt8 buf off) (\<lambda>(charCode, off1).
                if charCode = 0 then Inr (str, off1 + (len - i - 1))
                else readString_loop buf len (i + 1) off1 (str @ [charCode])))
      else Inr (str, off))"
  by pat_completeness auto
termination
  by (relation "measure (\<lambda>(buf, len, i, off, str). len - i)") auto

declare readString_loop.simps [simp del]

definition readString :: "bytes \<Rightarrow> nat \<Rightarrow> nat \<Rightarrow> js_error + (nat list \<times> nat)" where
  "readString buf off len = readString_loop buf len 0 off []"

definition seek :: "bytes \<Rightarrow> int \<Rightarrow> nat" where
  "seek buf pos = nat (max 0 (min pos (int (length buf))))"

definition skip :: "bytes \<Rightarrow> nat \<Rightarrow> int \<Rightarrow> nat" where
  "skip buf off len = seek buf (int off + len)"

definition tell :: "nat \<Rightarrow> nat" where
  "tell off = off"

section \<open>PvrDecoder\<close>

text \<open>
  \<open>decodeColor(v, format)\<close>: the bit operations of JavaScript work on the
  32-bit integer value of \<open>v\<close>; only bits 0 to 15 are inspected, so they are
  the bit operations on the natural number \<open>v\<close>. The result is the array
  \<open>[r, g, b, a]\<close>.
\<close>

definition decodeColor :: "nat \<Rightarrow> nat \<Rightarrow> nat \<times> nat \<times> nat \<times> nat" where
  "decodeColor v format =
     (if format = 0 then
        (push_bit 3 (drop_bit 10 v AND 0x1f),
         push_bit 3 (drop_bit 5 v AND 0x1f),
         push_bit 3 (v AND 0x1f),
         if v AND 0x8000 \<noteq> 0 then 255 else 0)
      else if format = 1 then
        (push_bit 3 (drop_bit 11 v AND 0x1f),
         push_bit 2 (drop_bit 5 v AND 0x3f),
         push_bit 3 (v AND 0x1f),
         255)
      else if format = 2 then
        (push_bit 4 (drop_bit 8 v AND 0x0f),
         push_bit 4 (drop_bit 4 v AND 0x0f),
         push_bit 4 (v AND 0x0f),
         push_bit 4 (drop_bit 12 v AND 0x0f))
      else (255, 255, 255, 255))"

text \<open>\<open>untwiddle(x, y)\<close>: the loop over \<open>i = 0 .. 9\<close>, from index \<open>i\<close> with accumulator \<open>res\<close>.\<close>

function untwiddle_loop :: "nat \<Rightarrow> nat \<Rightarrow> nat \<Rightarrow> nat \<Rightarrow> nat" where
  "untwiddle_loop x y i res =
     (if i < 10 then
        untwiddle_loop x y (i + 1)
          ((res OR (if x AND push_bit i 1 \<noteq> 0 then push_bit (2 * i + 1) 1 else 0))
                OR (if y AND push_bit i 1 \<noteq> 0 then push_bit (2 * i) 1 else 0))
      else res)"
  by pat_completeness auto
termination
  by (relation "measure (\<lambda>(x, y, i, res). 10 - i)") auto

declare untwiddle_loop.simps [simp del]

definition untwiddle :: "nat \<Rightarrow> nat \<Rightarrow> nat" where
  "untwiddle x y = untwiddle_loop x y 0 0"

text \<open>
  The inverse addressing, written from the specification (the source has no
  such function): extracting the odd bit positions \<open>2i+1\<close> gives back
  \<open>x\<close>, extracting the even positions \<open>2i\<close> gives back \<open>y\<close>, for the ten
  bit positions \<open>i = 0 .. 9\<close>.
\<close>

definition spec_extract_xy :: "nat \<Rightarrow> nat \<times> nat" where
  "spec_extract_xy z =
     (horner_sum of_bool 2 (map (\<lambda>i. bit z (2 * i + 1)) [0..<10]),
      horner_sum of_bool 2 (map (\<lambda>i. bit z (2 * i)) [0..<10]))"

text \<open>
  A store \<open>rgba[i] = v\<close> into a \<open>Uint8Array\<close>: the value is taken modulo 256,
  and a store outside the array is ignored.
\<close>

definition u8_store :: "bytes \<Rightarrow> nat \<Rightarrow> nat \<Rightarrow> bytes" where
  "u8_store rgba i v = (if i < length rgba then rgba[i := word_of_nat v] else rgba)"

definition store_rgba :: "bytes \<Rightarrow> nat \<Rightarrow> nat \<times> nat \<times> nat \<times> nat \<Rightarrow> bytes" where
  "store_rgba rgba destIdx c =
     (case c of (r, g, b, a) \<Rightarrow>
        u8_store (u8_store (u8_store (u8_store rgba destIdx r) (destIdx + 1) g)
          (destIdx + 2) b) (destIdx + 3) a)"

text \<open>\<open>decodeRaw\<close>: the inner loop over \<open>x\<close> and the outer loop over \<open>y\<close>.\<close>

function decodeRaw_x ::
  "bytes \<Rightarrow> nat \<Rightarrow> nat \<Rightarrow> bool \<Rightarrow> nat \<Rightarrow> nat \<Rightarrow> bytes \<Rightarrow> js_error + bytes" where
  "decodeRaw_x buf width colorFormat isTwiddled y x rgba =
     (if x < width then
        (let srcIdx = (if isTwiddled then untwiddle x y else y * width + x);
             dataStart = 8
         in bindE (readUInt16At buf (dataStart + srcIdx * 2)) (\<lambda>color.
              decodeRaw_x buf width colorFormat isTwiddled y (x + 1)
                (store_rgba rgba ((y * width + x) * 4) (decodeColor color colorFormat))))
      else Inr rgba)"
  by pat_completeness auto
termination
  by (relation "measure (\<lambda>(buf, width, colorFormat, isTwiddled, y, x, rgba). width - x)") auto

declare decodeRaw_x.simps [simp del]

function decodeRaw_y ::
  "bytes \<Rightarrow> nat \<Rightarrow> nat \<Rightarrow> nat \<Rightarrow> bool \<Rightarrow> nat \<Rightarrow> bytes \<Rightarrow> js_error + bytes" where
  "decodeRaw_y buf width height colorFormat isTwiddled y rgba =
     (if y < height then
        bindE (decodeRaw_x buf width colorFormat isTwiddled y 0 rgba) (\<lambda>rgba.
          decodeRaw_y buf width height colorFormat isTwiddled (y + 1) rgba)
      else Inr rgba)"
  by pat_completeness auto
termination
  by (relation "measure (\<lambda>(buf, width, height, colorFormat, isTwiddled, y, rgba). height - y)") auto

declare decodeRaw_y.simps [simp del]

definition decodeRaw :: "bytes \<Rightarrow> nat \<Rightarrow> nat \<Rightarrow> nat \<Rightarrow> bool \<Rightarrow> js_error + bytes" where
  "decodeRaw buf width height colorFormat isTwiddled =
     decodeRaw_y buf width height colorFormat isTwiddled 0 (replicate (width * height * 4) 0)"

text \<open>
  \<open>decodeVQ\<close>. The codebook loop reads 256 blocks of four 16-bit colors. In the
  image loops \<open>mipWidth = width / 2\<close> and \<open>mipHeight = height / 2\<close> are not
  rounded, so \<open>x < mipWidth\<close> is \<open>2 * x < width\<close>. Every iteration seeks to an
  absolute position before it reads, so the offset left by one iteration is not
  used by the next.
\<close>

function readCodebook ::
  "bytes \<Rightarrow> nat \<Rightarrow> nat \<Rightarrow> nat list list \<Rightarrow> js_error + (nat list list \<times> nat)" where
  "readCodebook buf i off codebook =
     (if i < 256 then
        bindE (readUInt16 buf off) (\<lambda>(c0, off).
        bindE (readUInt16 buf off) (\<lambda>(c1, off).
        bindE (readUInt16 buf off) (\<lambda>(c2, off).
        bindE (readUInt16 buf off) (\<lambda>(c3, off).
          readCodebook buf (i + 1) off (codebook @ [[c0, c1, c2, c3]])))))
      else Inr (codebook, off))"
  by pat_completeness auto
termination
  by (relation "measure (\<lambda>(buf, i, off, codebook). 256 - i)") auto

declare readCodebook.simps [simp del]

function decodeVQ_block ::
  "nat \<Rightarrow> nat \<Rightarrow> nat list \<Rightarrow> nat \<Rightarrow> nat \<Rightarrow> nat \<Rightarrow> bytes \<Rightarrow> bytes" where
  "decodeVQ_block width colorFormat block y x i rgba =
     (if i < 4 then
        (let bx = i mod 2; by = i div 2
         in decodeVQ_block width colorFormat block y x (i + 1)
              (store_rgba rgba (((y * 2 + by) * width + (x * 2 + bx)) * 4)
                 (decodeColor (block ! i) colorFormat)))
      else rgba)"
  by pat_completeness auto
termination
  by (relation "measure (\<lambda>(width, colorFormat, block, y, x, i, rgba). 4 - i)") auto

declare decodeVQ_block.simps [simp del]

function decodeVQ_x ::
  "bytes \<Rightarrow> nat \<Rightarrow> nat \<Rightarrow> nat list list \<Rightarrow> nat \<Rightarrow> nat \<Rightarrow> nat \<Rightarrow> bytes \<Rightarrow> js_error + bytes" where
  "decodeVQ_x buf width colorFormat codebook dataStart y x rgba =
     (if 2 * x < width then
        (let twiddledIdx = untwiddle x y
         in bindE (readUInt8 buf (seek buf (int dataStart + int twiddledIdx))) (\<lambda>(codeIdx, off).
              if codeIdx \<ge> length codebook
              then decodeVQ_x buf width colorFormat codebook dataStart y (x + 1) rgba
              else decodeVQ_x buf width colorFormat codebook dataStart y (x + 1)
                     (decodeVQ_block width colorFormat (codebook ! codeIdx) y x 0 rgba)))
      else Inr rgba)"
  by pat_completeness auto
termination
  by (relation "measure (\<lambda>(buf, width, colorFormat, codebook, dataStart, y, x, rgba). width - 2 * x)")
     auto

declare decodeVQ_x.simps [simp del]

function decodeVQ_y ::
  "bytes \<Rightarrow> nat \<Rightarrow> nat \<Rightarrow> nat \<Rightarrow> nat list list \<Rightarrow> nat \<Rightarrow> nat \<Rightarrow> bytes \<Rightarrow> js_error + bytes" where
  "decodeVQ_y buf width height colorFormat codebook dataStart y rgba =
     (if 2 * y < height then
        bindE (decodeVQ_x buf width colorFormat codebook dataStart y 0 rgba) (\<lambda>rgba.
          decodeVQ_y buf width height colorFormat codebook dataStart (y + 1) rgba)
      else Inr rgba)"
  by pat_completeness auto
termination
  by (relation "measure (\<lambda>(buf, width, height, colorFormat, codebook, dataStart, y, rgba). height - 2 * y)")
     auto

declare decodeVQ_y.simps [simp del]

definition decodeVQ :: "bytes \<Rightarrow> nat \<Rightarrow> nat \<Rightarrow> nat \<Rightarrow> nat \<Rightarrow> js_error + bytes" where
  "decodeVQ buf off width height colorFormat =
     bindE (readCodebook buf 0 off []) (\<lambda>(codebook, off).
       decodeVQ_y buf width height colorFormat codebook (tell off) 0
         (replicate (width * height * 4) 0))"

text \<open>
  \<open>decode\<close>. The result is the texture handed to the renderer: the pixel buffer,
  the dimensions and the two alpha flags. The \<open>BinaryReader\<close> of a decoder
  starts at offset 0 of the buffer given to the constructor. A \<open>Uint8Array\<close> is
  an object, so \<open>!pixelData\<close> is false and \<open>decode\<close> does not return \<open>null\<close>.
  The limit of the engine on the length of a typed array is not modelled.
\<close>

record texture =
  pixelData :: bytes
  tex_width :: nat
  tex_height :: nat
  hasAlpha :: bool
  hasGradientAlpha :: bool

definition decode :: "bytes \<Rightarrow> js_error + texture option" where
  "decode buf =
     bindE (readString buf 0 4) (\<lambda>(sig, off).
       let off = (if sig = map of_char ''PVRT'' then skip buf off 4 else seek buf 0)
       in bindE (readUInt8 buf off) (\<lambda>(colorFormat, off).
          bindE (readUInt8 buf off) (\<lambda>(dataFormat, off).
          let off = off + 2
          in bindE (readUInt16 buf off) (\<lambda>(width, off).
             bindE (readUInt16 buf off) (\<lambda>(height, off).
             let hasAlpha = (colorFormat = 0 \<or> colorFormat = 2);
                 hasGradientAlpha = (colorFormat = 2);
                 isVQ = (dataFormat = 0x03 \<or> dataFormat = 0x04);
                 isTwiddled = (dataFormat = 0x01 \<or> dataFormat = 0x02 \<or> dataFormat = 0x03
                                 \<or> dataFormat = 0x04 \<or> dataFormat = 0x11)
             in bindE (if isVQ then decodeVQ buf off width height colorFormat
                       else decodeRaw buf width height colorFormat isTwiddled) (\<lambda>pixelData.
                  Inr (Some \<lparr>pixelData = pixelData, tex_width = width, tex_height = height,
                             hasAlpha = hasAlpha, hasGradientAlpha = hasGradientAlpha\<rparr>)))))))"

section \<open>Mt5Loader: the polygon command stream\<close>

text \<open>
  A strip entry \<open>{idx, u, v, color}\<close> and a strip group
  \<open>{strips, head, texId}\<close>. Numbers that the source computes in floating
  point (texture coordinates, normalised colors) are real numbers here: the
  model computes the exact value that the source rounds.
\<close>

record strip_vertex =
  sv_idx :: int
  sv_u :: real
  sv_v :: real
  sv_color :: "real list"

record polygon =
  poly_strips :: "strip_vertex list list"
  poly_head :: nat
  poly_texId :: nat

text \<open>The local variables of \<open>readPolygons\<close> that live across the records of the stream.\<close>

record poly_state =
  polygons :: "polygon list"
  currentTexIdx :: nat
  isUVH :: bool
  uvSize :: nat
  uMirror :: bool
  vMirror :: bool

definition u8_get :: "u8array \<Rightarrow> nat \<Rightarrow> 8 word" where
  "u8_get a i = abuf a ! (aoff a + i)"

text \<open>
  The body of the loop over \<open>k\<close>: one strip entry. \<open>vertexBase\<close> and
  \<open>nbVertex\<close> are the arguments of \<open>readPolygons\<close>.
\<close>

definition readStripVertex ::
  "bytes \<Rightarrow> nat \<Rightarrow> nat \<Rightarrow> bool \<Rightarrow> bool \<Rightarrow> poly_state \<Rightarrow> nat \<Rightarrow> js_error + (strip_vertex \<times> nat)" where
  "readStripVertex buf vertexBase nbVertex hasUV hasColor st off =
     bindE (readShort buf off) (\<lambda>(rawIdx, off).
       let idx = int vertexBase + rawIdx;
           idx = (if rawIdx < 0 then int vertexBase + int nbVertex + rawIdx else idx)
       in bindE
            (if hasUV then
               bindE (readShort buf off) (\<lambda>(texU, off).
               bindE (readShort buf off) (\<lambda>(texV, off).
                 let u = (if isUVH st then real_of_int texU * 0.000015258789
                          else if \<bar>texU\<bar> < 0xF000 then real_of_int texU / real (uvSize st)
                          else real_of_int texU * 0.00000000023283064);
                     v = (if isUVH st then real_of_int texV * 0.000015258789
                          else if \<bar>texV\<bar> < 0xF000 then real_of_int texV / real (uvSize st)
                          else real_of_int texV * 0.00000000023283064);
                     u = (if uMirror st \<and> \<bar>u\<bar> > 1.0 then u / 2.0 else u);
                     v = (if vMirror st \<and> \<bar>v\<bar> > 1.0 then v / 2.0 else v)
                 in Inr ((u, v), off)))
             else Inr ((0.0, 0.0), off))
            (\<lambda>((u, v), off).
               bindE
                 (if hasColor then
                    bindE (readUInt8 buf off) (\<lambda>(b, off).
                    bindE (readUInt8 buf off) (\<lambda>(g, off).
                    bindE (readUInt8 buf off) (\<lambda>(r, off).
                    bindE (readUInt8 buf off) (\<lambda>(a, off).
                      Inr ([real r / 255, real g / 255, real b / 255, real a / 255], off)))))
                  else Inr ([1, 1, 1, 1], off))
                 (\<lambda>(color, off).
                    Inr (\<lparr>sv_idx = idx, sv_u = u, sv_v = v, sv_color = color\<rparr>, off))))"

text \<open>The loop over \<open>k\<close> (the entries of one strip) and the loop over \<open>i\<close> (the strips of one group).\<close>

function readStrip_loop ::
  "bytes \<Rightarrow> nat \<Rightarrow> nat \<Rightarrow> bool \<Rightarrow> bool \<Rightarrow> poly_state \<Rightarrow> nat \<Rightarrow> nat \<Rightarrow> nat \<Rightarrow> strip_vertex list
     \<Rightarrow> js_error + (strip_vertex list \<times> nat)" where
  "readStrip_loop buf vertexBase nbVertex hasUV hasColor st absStripLen k off strip =
     (if k < absStripLen then
        bindE (readStripVertex buf vertexBase nbVertex hasUV hasColor st off) (\<lambda>(e, off).
          readStrip_loop buf vertexBase nbVertex hasUV hasColor st absStripLen (k + 1) off
            (strip @ [e]))
      else Inr (strip, off))"
  by pat_completeness auto
termination
  by (relation "measure (\<lambda>(buf, vertexBase, nbVertex, hasUV, hasColor, st, absStripLen, k, off, strip).
        absStripLen - k)") auto

declare readStrip_loop.simps [simp del]

function readStrips_loop ::
  "bytes \<Rightarrow> nat \<Rightarrow> nat \<Rightarrow> bool \<Rightarrow> bool \<Rightarrow> poly_state \<Rightarrow> nat \<Rightarrow> nat \<Rightarrow> nat
     \<Rightarrow> strip_vertex list list \<Rightarrow> js_error + (strip_vertex list list \<times> nat)" where
  "readStrips_loop buf vertexBase nbVertex hasUV hasColor st nbStrips i off strips =
     (if i < nbStrips then
        bindE (readShort buf off) (\<lambda>(stripLenRaw, off).
          let absStripLen = nat \<bar>stripLenRaw\<bar>
          in bindE (readStrip_loop buf vertexBase nbVertex hasUV hasColor st absStripLen 0 off [])
               (\<lambda>(strip, off).
                  readStrips_loop buf vertexBase nbVertex hasUV hasColor st nbStrips (i + 1) off
                    (strips @ [strip])))
      else Inr (strips, off))"
  by pat_completeness auto
termination
  by (relation "measure (\<lambda>(buf, vertexBase, nbVertex, hasUV, hasColor, st, nbStrips, i, off, strips).
        nbStrips - i)") auto

declare readStrips_loop.simps [simp del]

text \<open>
  The \<open>while\<close> loop of \<open>readPolygons\<close>, from the state \<open>st\<close> of its local
  variables, the counter \<open>iterations\<close> and the reader offset \<open>off\<close>. It
  returns the list \<open>polygons\<close> and the offset where it leaves the reader.
  \<open>reader.size - 2\<close> is negative on a buffer of fewer than two bytes.
\<close>

function readPolygons_loop ::
  "bytes \<Rightarrow> nat \<Rightarrow> nat \<Rightarrow> nat \<Rightarrow> poly_state \<Rightarrow> nat \<Rightarrow> js_error + (polygon list \<times> nat)" where
  "readPolygons_loop buf vertexBase nbVertex iterations st off =
     (if int off < int (length buf) - 2 \<and> iterations < 10000 then
        bindE (readUShort buf off) (\<lambda>(type, off).
          if type = 0x8000 then Inr (polygons st, off)
          else if type = 0x0000 \<or> type = 0xFFFF then
            readPolygons_loop buf vertexBase nbVertex (iterations + 1) st off
          else if type \<ge> 0x0002 \<and> type \<le> 0x0007 then
            bindE (readUShort buf off) (\<lambda>(size, off).
            bindE (readBytes buf off size) (\<lambda>(data, off).
              let st = (if alen data \<ge> 1 then st\<lparr>isUVH := (u8_get data 0 AND 1 = 1)\<rparr> else st);
                  st = (if alen data \<ge> 11
                        then st\<lparr>uMirror := (u8_get data 10 AND 4 = 4),
                                vMirror := (u8_get data 10 AND 2 = 2)\<rparr>
                        else st)
              in readPolygons_loop buf vertexBase nbVertex (iterations + 1) st off))
          else if type = 0x0009 then
            bindE (readUShort buf off) (\<lambda>(t, off).
              readPolygons_loop buf vertexBase nbVertex (iterations + 1)
                (st\<lparr>currentTexIdx := t\<rparr>) off)
          else if type = 0x000B then
            bindE (readUShort buf off) (\<lambda>(sizeVal, off).
              readPolygons_loop buf vertexBase nbVertex (iterations + 1)
                (if sizeVal \<noteq> 0 then st\<lparr>uvSize := sizeVal\<rparr> else st) off)
          else if type = 0x0008 \<or> type = 0x000A then
            readPolygons_loop buf vertexBase nbVertex (iterations + 1) st (skip buf off 2)
          else if type = 0x000E \<or> type = 0x000F then
            readPolygons_loop buf vertexBase nbVertex (iterations + 1) st (skip buf off 10)
          else if type \<ge> 0x10 \<and> type \<le> 0x1F then
            bindE (readUShort buf off) (\<lambda>(unknown, off).
            bindE (readUShort buf off) (\<lambda>(nbStrips, off).
              let hasUV = (type = 0x11 \<or> type = 0x14 \<or> type = 0x19 \<or> type = 0x1C);
                  hasColor = (type = 0x12 \<or> type = 0x14 \<or> type = 0x1A \<or> type = 0x1C)
              in bindE (readStrips_loop buf vertexBase nbVertex hasUV hasColor st nbStrips 0 off [])
                   (\<lambda>(strips, off).
                      readPolygons_loop buf vertexBase nbVertex (iterations + 1)
                        (st\<lparr>polygons := polygons st @
                             [\<lparr>poly_strips = strips, poly_head = type, poly_texId = currentTexIdx st\<rparr>]\<rparr>)
                        off)))
          else Inr (polygons st, off))
      else Inr (polygons st, off))"
  by pat_completeness auto
termination
  by (relation "measure (\<lambda>(buf, vertexBase, nbVertex, iterations, st, off). 10000 - iterations)")
     auto

declare readPolygons_loop.simps [simp del]

definition readPolygons :: "bytes \<Rightarrow> nat \<Rightarrow> nat \<Rightarrow> nat \<Rightarrow> js_error + (polygon list \<times> nat)" where
  "readPolygons buf off vertexBase nbVertex =
     readPolygons_loop buf vertexBase nbVertex 0
       \<lparr>polygons = [], currentTexIdx = 0, isUVH = False, uvSize = 1024,
        uMirror = False, vMirror = False\<rparr> off"

section \<open>Mt5Loader: meshes and the node tree\<close>

text \<open>
  The fields of the loader that the node traversal uses: the global vertex pool
  and the running vertex counter. A vertex is \<open>{pos, norm}\<close>, two arrays of
  three floats.
\<close>

record vertex =
  v_pos :: "float32 list"
  v_norm :: "float32 list"

record loader =
  globalVertices :: "vertex list"
  vertexOffset :: nat

record mt5_model =
  m_flag :: nat
  m_vertexAddr :: nat
  m_nbVertex :: nat
  m_polygonAddr :: nat
  m_center :: "float32 \<times> float32 \<times> float32"
  m_radius :: float32
  m_vertexBase :: nat
  m_polygons :: "polygon list option"

text \<open>The vertex loop of \<open>readModel\<close>: it stops early when fewer than 24 bytes remain.\<close>

function readVertices_loop ::
  "bytes \<Rightarrow> nat \<Rightarrow> nat \<Rightarrow> nat \<Rightarrow> vertex list \<Rightarrow> js_error + (vertex list \<times> nat)" where
  "readVertices_loop buf nbVertex i off gv =
     (if i < nbVertex then
        (if \<not> canRead buf off 24 then Inr (gv, off)
         else
           bindE (readFloat32 buf off) (\<lambda>(x, off).
           bindE (readFloat32 buf off) (\<lambda>(y, off).
           bindE (readFloat32 buf off) (\<lambda>(z, off).
           bindE (readFloat32 buf off) (\<lambda>(nx, off).
           bindE (readFloat32 buf off) (\<lambda>(ny, off).
           bindE (readFloat32 buf off) (\<lambda>(nz, off).
             readVertices_loop buf nbVertex (i + 1) off
               (gv @ [\<lparr>v_pos = [f32_neg x, y, z], v_norm = [f32_neg nx, ny, nz]\<rparr>]))))))))
      else Inr (gv, off))"
  by pat_completeness auto
termination
  by (relation "measure (\<lambda>(buf, nbVertex, i, off, gv). nbVertex - i)") auto

declare readVertices_loop.simps [simp del]

text \<open>
  \<open>readModel\<close> returns the model, the loader with the vertices appended and
  the counter advanced, and the reader offset. (\<open>addr\<close> is computed by the
  source and not used.)
\<close>

definition readModel :: "bytes \<Rightarrow> loader \<Rightarrow> nat \<Rightarrow> js_error + (mt5_model \<times> loader \<times> nat)" where
  "readModel buf ld off =
     (let addr = tell off in
      bindE (readUInt32 buf off) (\<lambda>(flag, off).
      bindE (readUInt32 buf off) (\<lambda>(vertexAddr, off).
      bindE (readUInt32 buf off) (\<lambda>(nbVertex, off).
      bindE (readUInt32 buf off) (\<lambda>(polygonAddr, off).
      bindE (readFloat32 buf off) (\<lambda>(cx, off).
      bindE (readFloat32 buf off) (\<lambda>(cy, off).
      bindE (readFloat32 buf off) (\<lambda>(cz, off).
      bindE (readFloat32 buf off) (\<lambda>(radius, off).
        let model = \<lparr>m_flag = flag, m_vertexAddr = vertexAddr, m_nbVertex = nbVertex,
                     m_polygonAddr = polygonAddr, m_center = (cx, cy, cz), m_radius = radius,
                     m_vertexBase = vertexOffset ld, m_polygons = None\<rparr>
        in
        bindE
          (if m_vertexAddr model \<noteq> 0 \<and> m_vertexAddr model > 0
                \<and> m_vertexAddr model < length buf then
             (let saved = tell off
              in bindE (readVertices_loop buf (m_nbVertex model) 0
                          (seek buf (int (m_vertexAddr model))) (globalVertices ld))
                   (\<lambda>(gv, off').
                      Inr (ld\<lparr>globalVertices := gv,
                              vertexOffset := vertexOffset ld + m_nbVertex model\<rparr>,
                           seek buf (int saved))))
           else Inr (ld, off))
          (\<lambda>(ld, off).
             bindE
               (if m_polygonAddr model \<noteq> 0 \<and> m_polygonAddr model > 0
                     \<and> m_polygonAddr model < length buf then
                  (let saved = tell off
                   in bindE (readPolygons buf (seek buf (int (m_polygonAddr model)))
                               (m_vertexBase model) (m_nbVertex model))
                        (\<lambda>(ps, off').
                           Inr (model\<lparr>m_polygons := Some ps\<rparr>, seek buf (int saved))))
                else Inr (model, off))
               (\<lambda>(model, off). Inr (model, ld, off))))))))))))"

text \<open>
  A node of the tree. The rotation is \<open>raw / 65536 * \<pi> * 2\<close> for the raw signed
  32-bit value. The scene objects that the source builds for a node
  (\<open>createMeshFromModel\<close>, \<open>TransformNode\<close>) belong to the rendering engine and
  are not part of the model.
\<close>

record node =
  n_addr :: nat
  n_flag :: nat
  n_modelAddr :: nat
  n_rot :: "real \<times> real \<times> real"
  n_scl :: "float32 \<times> float32 \<times> float32"
  n_pos :: "float32 \<times> float32 \<times> float32"
  n_child :: nat
  n_sibling :: nat
  n_parentAddr :: nat
  n_unk1 :: nat
  n_unk2 :: nat
  n_model :: "mt5_model option"

text \<open>The object literal of \<open>readNode\<close>: the sixteen reads, in the order of the fields.\<close>

definition readNodeRecord :: "bytes \<Rightarrow> nat \<Rightarrow> js_error + (node \<times> nat)" where
  "readNodeRecord buf off =
     (let nodeAddr = off in
      bindE (readUInt32 buf off) (\<lambda>(flag, off).
      bindE (readUInt32 buf off) (\<lambda>(modelAddr, off).
      bindE (readInt32 buf off) (\<lambda>(rx, off).
      bindE (readInt32 buf off) (\<lambda>(ry, off).
      bindE (readInt32 buf off) (\<lambda>(rz, off).
      bindE (readFloat32 buf off) (\<lambda>(sx, off).
      bindE (readFloat32 buf off) (\<lambda>(sy, off).
      bindE (readFloat32 buf off) (\<lambda>(sz, off).
      bindE (readFloat32 buf off) (\<lambda>(px, off).
      bindE (readFloat32 buf off) (\<lambda>(py, off).
      bindE (readFloat32 buf off) (\<lambda>(pz, off).
      bindE (readUInt32 buf off) (\<lambda>(child, off).
      bindE (readUInt32 buf off) (\<lambda>(sibling, off).
      bindE (readUInt32 buf off) (\<lambda>(parentAddr, off).
      bindE (readUInt32 buf off) (\<lambda>(unk1, off).
      bindE (readUInt32 buf off) (\<lambda>(unk2, off).
        Inr (\<lparr>n_addr = nodeAddr, n_flag = flag, n_modelAddr = modelAddr,
              n_rot = (real_of_int rx / 65536.0 * pi * 2.0,
                       real_of_int ry / 65536.0 * pi * 2.0,
                       real_of_int rz / 65536.0 * pi * 2.0),
              n_scl = (sx, sy, sz), n_pos = (px, py, pz),
              n_child = child, n_sibling = sibling, n_parentAddr = parentAddr,
              n_unk1 = unk1, n_unk2 = unk2, n_model = None\<rparr>, off))))))))))))))))))"

text \<open>The model of a node: \<open>readModel\<close> at \<open>modelAddr\<close>, with the reader offset saved and restored.\<close>

definition readNodeModel ::
  "bytes \<Rightarrow> loader \<Rightarrow> node \<Rightarrow> nat \<Rightarrow> js_error + (node \<times> loader \<times> nat)" where
  "readNodeModel buf ld node off =
     (if n_modelAddr node \<noteq> 0 \<and> n_modelAddr node > 0 \<and> n_modelAddr node < length buf then
        (let saved = tell off
         in bindE (readModel buf ld (seek buf (int (n_modelAddr node)))) (\<lambda>(m, ld, off').
              Inr (node\<lparr>n_model := Some m\<rparr>, ld, seek buf (int saved))))
      else Inr (node, ld, off))"

text \<open>
  \<open>readNode(reader, nodes)\<close>: the state is the reader offset, the list
  \<open>nodes\<close> and the loader; the result is the state when the call returns.
  The second recursive call starts from the state left by the first.
\<close>

function readNode ::
  "bytes \<Rightarrow> nat \<Rightarrow> node list \<Rightarrow> loader \<Rightarrow> js_error + (nat \<times> node list \<times> loader)" where
  "readNode buf off nodes ld =
     (if \<not> canRead buf off 64 then Inr (off, nodes, ld)
      else
        (let nodeAddr = off in
         if list_ex (\<lambda>n. n_addr n = nodeAddr) nodes then Inr (off, nodes, ld)
         else
           bindE (readNodeRecord buf off) (\<lambda>(node, off).
           bindE (readNodeModel buf ld node off) (\<lambda>(node, ld, off).
             let nodes = nodes @ [node] in
             bindE (if n_child node \<noteq> 0 \<and> n_child node < length buf
                    then readNode buf (seek buf (int (n_child node))) nodes ld
                    else Inr (off, nodes, ld))
               (\<lambda>(off, nodes, ld).
                  if n_sibling node \<noteq> 0 \<and> n_sibling node < length buf
                  then readNode buf (seek buf (int (n_sibling node))) nodes ld
                  else Inr (off, nodes, ld))))))"
  by pat_completeness auto

section \<open>Mt5Loader: the texture directory\<close>

text \<open>
  The scan for the nested \<open>PVRT\<close> tag in a \<open>TEXN\<close> block need not
  terminate: when the declared end of the block lies behind the end of the
  buffer and no tag is found, \<open>readString\<close> stops at the end of the buffer and
  \<open>skip(-3)\<close> steps back, forever. A computation of the texture directory
  therefore has three outcomes: \<open>None\<close> when it does not return,
  \<open>Some (Inl e)\<close> when it throws, \<open>Some (Inr x)\<close> when it returns \<open>x\<close>.
\<close>

definition bindC ::
  "(js_error + 'a) option \<Rightarrow> ('a \<Rightarrow> (js_error + 'b) option) \<Rightarrow> (js_error + 'b) option" where
  "bindC m f = (case m of None \<Rightarrow> None | Some (Inl e) \<Rightarrow> Some (Inl e) | Some (Inr x) \<Rightarrow> f x)"

lemma bindC_simps [simp]:
  "bindC None f = None" "bindC (Some (Inl e)) f = Some (Inl e)" "bindC (Some (Inr x)) f = f x"
  by (simp_all add: bindC_def)

lemma bindC_cong [fundef_cong]:
  "m = m' \<Longrightarrow> (\<And>x. m' = Some (Inr x) \<Longrightarrow> f x = f' x) \<Longrightarrow> bindC m f = bindC m' f'"
  by (auto simp: bindC_def split: option.splits sum.splits)

text \<open>\<open>ArrayBuffer.slice(begin, end)\<close> clamps both ends to the buffer.\<close>

definition slice :: "bytes \<Rightarrow> nat \<Rightarrow> nat \<Rightarrow> bytes" where
  "slice b begin end = take (end - begin) (drop begin b)"

text \<open>\<open>new DataView(buffer, byteOffset, byteLength)\<close> throws when the window leaves the buffer.\<close>

definition new_DataView :: "bytes \<Rightarrow> nat \<Rightarrow> nat \<Rightarrow> js_error + bytes" where
  "new_DataView b byteOffset byteLength =
     (if byteOffset + byteLength \<le> length b then Inr (take byteLength (drop byteOffset b))
      else Inl RangeError)"

type_synonym texture_cache = "nat \<rightharpoonup> texture"

record name_request =
  req_id :: u8array
  req_index :: nat

text \<open>
  The inner \<open>while\<close> loop of a \<open>TEXN\<close> block. It returns the texture decoded
  at the first \<open>PVRT\<close> tag (which the caller stores in the cache) or nothing when
  it reaches the end of the block.
\<close>

partial_function (option) scanPVRT ::
  "bytes \<Rightarrow> nat \<Rightarrow> nat \<Rightarrow> (js_error + (texture option \<times> nat)) option" where
  "scanPVRT buf nodeEnd off =
     (if int (tell off) < int nodeEnd - 4 then
        (case readString buf off 4 of
           Inl e \<Rightarrow> Some (Inl e)
         | Inr (s, off) \<Rightarrow>
             if s = map of_char ''PVRT'' then
               Some (bindE (readUInt32 buf off) (\<lambda>(pvrLen, off).
                       let pvrBuffer = slice buf (tell off) (tell off + pvrLen)
                       in bindE (decode pvrBuffer) (\<lambda>tex. Inr (tex, off))))
             else scanPVRT buf nodeEnd (skip buf off (- 3)))
      else Some (Inr (None, off)))"

text \<open>
  The \<open>for\<close> loop of a \<open>NAME\<close> block. \<open>numEntries = (nodeSize - 8) / 8\<close> is
  not rounded, so \<open>i < numEntries\<close> is \<open>8 * i < nodeSize - 8\<close>.
\<close>

function readNames ::
  "bytes \<Rightarrow> bool \<Rightarrow> nat \<Rightarrow> texture_cache \<Rightarrow> nat \<Rightarrow> nat \<Rightarrow> nat \<Rightarrow> name_request list \<Rightarrow> nat
     \<Rightarrow> js_error + (nat \<times> name_request list \<times> nat)" where
  "readNames buf skipExisting nbTex cache nodeSize i texCounter nameRequests off =
     (if 8 * int i < int nodeSize - 8 then
        bindE (readBytes buf off 8) (\<lambda>(id, off).
          if skipExisting \<and> cache texCounter \<noteq> None then
            (let texCounter = texCounter + 1
             in if texCounter \<ge> nbTex then Inr (texCounter, nameRequests, off)
                else readNames buf skipExisting nbTex cache nodeSize (i + 1) texCounter
                       nameRequests off)
          else
            (let nameRequests = nameRequests @ [\<lparr>req_id = id, req_index = texCounter\<rparr>];
                 texCounter = texCounter + 1
             in if texCounter \<ge> nbTex then Inr (texCounter, nameRequests, off)
                else readNames buf skipExisting nbTex cache nodeSize (i + 1) texCounter
                       nameRequests off))
      else Inr (texCounter, nameRequests, off))"
  by pat_completeness auto
termination
  by (relation "measure (\<lambda>(buf, skipExisting, nbTex, cache, nodeSize, i, texCounter, nameRequests, off).
        nodeSize - i)") auto

declare readNames.simps [simp del]

text \<open>
  The \<open>while\<close> loop over the blocks of the directory, from the state
  \<open>texCounter\<close>, \<open>nameRequests\<close>, the texture cache and the reader offset.
\<close>

function readTextures_loop ::
  "bytes \<Rightarrow> bool \<Rightarrow> nat \<Rightarrow> nat \<Rightarrow> name_request list \<Rightarrow> texture_cache \<Rightarrow> nat
     \<Rightarrow> (js_error + (name_request list \<times> texture_cache \<times> nat)) option" where
  "readTextures_loop buf skipExisting nbTex texCounter nameRequests cache off =
     (if texCounter < nbTex \<and> canRead buf off 8 then
        (let startPos = tell off in
         bindC (Some (readString buf off 4)) (\<lambda>(marker, off).
         bindC (Some (readUInt32 buf off)) (\<lambda>(nodeSize, off).
           if nodeSize < 8 \<or> nodeSize > 0x1000000 then Some (Inr (nameRequests, cache, off))
           else
             (let nodeEnd = startPos + nodeSize in
              if marker = map of_char ''TEXN'' then
                (if skipExisting \<and> cache texCounter \<noteq> None then
                   readTextures_loop buf skipExisting nbTex (texCounter + 1) nameRequests cache
                     (seek buf (int nodeEnd))
                 else
                   bindC (Some (readBytes buf off 8)) (\<lambda>(id, off).
                   bindC (scanPVRT buf nodeEnd off) (\<lambda>(tex, off).
                     readTextures_loop buf skipExisting nbTex (texCounter + 1) nameRequests
                       (case tex of Some t \<Rightarrow> cache(texCounter \<mapsto> t) | None \<Rightarrow> cache)
                       (seek buf (int nodeEnd)))))
              else if marker = map of_char ''NAME'' then
                bindC (Some (readNames buf skipExisting nbTex cache nodeSize 0 texCounter
                               nameRequests off))
                  (\<lambda>(texCounter, nameRequests, off).
                     readTextures_loop buf skipExisting nbTex texCounter nameRequests cache
                       (seek buf (int nodeEnd)))
              else if marker = map of_char ''PVRT'' then
                (if skipExisting \<and> cache texCounter \<noteq> None then
                   readTextures_loop buf skipExisting nbTex (texCounter + 1) nameRequests cache
                     (seek buf (int nodeEnd))
                 else
                   bindC (Some (readUInt32 buf off)) (\<lambda>(pvrLen, off).
                     let pvrBuffer = slice buf (tell off) (tell off + pvrLen)
                     in bindC (Some (decode pvrBuffer)) (\<lambda>tex.
                          readTextures_loop buf skipExisting nbTex (texCounter + 1) nameRequests
                            (case tex of Some t \<Rightarrow> cache(texCounter \<mapsto> t) | None \<Rightarrow> cache)
                            (seek buf (int nodeEnd)))))
              else
                readTextures_loop buf skipExisting nbTex texCounter nameRequests cache
                  (seek buf (int nodeEnd))))))
      else Some (Inr (nameRequests, cache, off)))"
  by pat_completeness auto
termination
  by (relation "measure (\<lambda>(buf, skipExisting, nbTex, texCounter, nameRequests, cache, off).
        length buf - off)")
     (auto simp: canRead_def seek_def tell_def)

declare readTextures_loop.simps [simp del]

text \<open>
  The scan of a texture pack for one identifier: the \<open>while\<close> loop inside
  \<open>nameRequests.forEach\<close>. It returns the texture decoded from the first
  record with the identifier, which the caller stores in the cache.
\<close>

function packLookup :: "bytes \<Rightarrow> nat \<Rightarrow> nat \<Rightarrow> nat \<Rightarrow> js_error + texture option" where
  "packLookup sec reqHi reqLo off =
     (if int (tell off) < int (length sec) - 12 then
        (let entryPos = tell off in
         bindE (getUint32 sec entryPos) (\<lambda>entryHi.
         bindE (getUint32 sec (entryPos + 4)) (\<lambda>entryLo.
         bindE (getUint32 sec (entryPos + 8)) (\<lambda>entryLen.
           if entryLen = 0 \<or> entryLen > 0x1000000 then Inr None
           else
             (let off = seek sec (int (entryPos + 12)) in
              if entryHi = reqHi \<and> entryLo = reqLo then
                (let start = tell off;
                     pvrBuffer = slice sec start (start + entryLen)
                 in bindE (decode pvrBuffer) (\<lambda>tex. Inr tex))
              else packLookup sec reqHi reqLo (skip sec off (int entryLen)))))))
      else Inr None)"
  by pat_completeness auto
termination
  by (relation "measure (\<lambda>(sec, reqHi, reqLo, off). length sec - off)")
     (auto simp: seek_def skip_def tell_def)

declare packLookup.simps [simp del]

text \<open>The body of \<open>nameRequests.forEach\<close> for one request, and the iteration over the requests.\<close>

definition resolveRequest :: "bytes \<Rightarrow> name_request \<Rightarrow> texture_cache \<Rightarrow> js_error + texture_cache" where
  "resolveRequest sec req cache =
     bindE (new_DataView (abuf (req_id req)) (aoff (req_id req)) 8) (\<lambda>reqView.
     bindE (getUint32 reqView 0) (\<lambda>reqHi.
     bindE (getUint32 reqView 4) (\<lambda>reqLo.
     bindE (packLookup sec reqHi reqLo (seek sec 0)) (\<lambda>tex.
       Inr (case tex of Some t \<Rightarrow> cache(req_index req \<mapsto> t) | None \<Rightarrow> cache)))))"

fun resolveRequests :: "bytes \<Rightarrow> name_request list \<Rightarrow> texture_cache \<Rightarrow> js_error + texture_cache" where
  "resolveRequests sec [] cache = Inr cache"
| "resolveRequests sec (req # reqs) cache =
     bindE (resolveRequest sec req cache) (\<lambda>cache. resolveRequests sec reqs cache)"

text \<open>
  \<open>readTextures(reader, secondaryReader, skipExisting)\<close>. The secondary reader
  is \<open>None\<close> for \<open>null\<close>, else the buffer of the pack.
\<close>

definition readTextures ::
  "bytes \<Rightarrow> nat \<Rightarrow> bytes option \<Rightarrow> bool \<Rightarrow> texture_cache \<Rightarrow> (js_error + (texture_cache \<times> nat)) option" where
  "readTextures buf off secondaryReader skipExisting cache =
     (let texdStart = tell off in
      bindC (Some (readString buf off 4)) (\<lambda>(sig, off).
        if sig \<noteq> map of_char ''TEXD'' then Some (Inr (cache, off))
        else
          bindC (Some (readUInt32 buf off)) (\<lambda>(headerSize, off).
          bindC (Some (readUInt32 buf off)) (\<lambda>(nbTex, off).
            let off = seek buf (int (texdStart + headerSize)) in
            bindC (readTextures_loop buf skipExisting nbTex 0 [] cache off)
              (\<lambda>(nameRequests, cache, off).
                 case secondaryReader of
                   Some sec \<Rightarrow>
                     if nameRequests \<noteq> [] then
                       bindC (Some (resolveRequests sec nameRequests cache)) (\<lambda>cache.
                         Some (Inr (cache, off)))
                     else Some (Inr (cache, off))
                 | None \<Rightarrow> Some (Inr (cache, off)))))))"

text \<open>
  The texture step of \<open>load\<close>: with a time-variant pack, a first pass against
  it and a second pass, from the same directory offset, against the base pack
  with \<open>skipExisting = true\<close>; without one, a single pass against the base
  pack.
\<close>

definition loadTextures ::
  "bytes \<Rightarrow> nat \<Rightarrow> bytes option \<Rightarrow> bytes option \<Rightarrow> nat \<Rightarrow> texture_cache
     \<Rightarrow> (js_error + (texture_cache \<times> nat)) option" where
  "loadTextures buf texOffset baseReader timeReader off cache =
     (if texOffset > 0 \<and> texOffset < length buf then
        (let currentPos = tell off;
             off = seek buf (int texOffset)
         in bindC
              (case timeReader of
                 Some time \<Rightarrow>
                   bindC (readTextures buf off (Some time) False cache) (\<lambda>(cache, off).
                     let off = seek buf (int texOffset)
                     in readTextures buf off baseReader True cache)
               | None \<Rightarrow> readTextures buf off baseReader False cache)
              (\<lambda>(cache, off). Some (Inr (cache, seek buf (int currentPos)))))
      else Some (Inr (cache, off)))"

text \<open>
  A model buffer whose texture directory, at offset 12, declares one slot in a
  \<open>NAME\<close> block with the identifier \<open>01 02 .. 08\<close>; a time-variant pack and
  a base pack that both hold a texture under this identifier (the 2x1 textures
  red, green and blue, black); and the texture decoded from the time-variant
  pack.
\<close>

definition dir_buffer :: bytes where
  "dir_buffer =
     [0x48, 0x52, 0x43, 0x4D, 12, 0, 0, 0, 0, 0, 0, 0,
      0x54, 0x45, 0x58, 0x44, 12, 0, 0, 0, 1, 0, 0, 0,
      0x4E, 0x41, 0x4D, 0x45, 16, 0, 0, 0, 1, 2, 3, 4, 5, 6, 7, 8]"

definition time_pack :: bytes where
  "time_pack = [1, 2, 3, 4, 5, 6, 7, 8, 12, 0, 0, 0,
                1, 9, 0, 0, 2, 0, 1, 0, 0x00, 0xF8, 0xE0, 0x07]"

definition base_pack :: bytes where
  "base_pack = [1, 2, 3, 4, 5, 6, 7, 8, 12, 0, 0, 0,
                1, 9, 0, 0, 2, 0, 1, 0, 0x1F, 0x00, 0x00, 0x00]"

definition time_texture :: texture where
  "time_texture = \<lparr>pixelData = [248, 0, 0, 255, 0, 252, 0, 255], tex_width = 2, tex_height = 1,
                    hasAlpha = False, hasGradientAlpha = False\<rparr>"

text \<open>
  Auxiliary notions for the proofs about the traversal: a computation returns
  (does not throw); the outcome of a call of \<open>readNode\<close> started with the
  list \<open>nodes\<close> is a normal return whose list extends \<open>nodes\<close> and has
  pairwise distinct offsets if \<open>nodes\<close> has.
\<close>

definition returns :: "js_error + 'a \<Rightarrow> bool" where
  "returns m = (\<exists>x. m = Inr x)"

definition node_step_ok :: "node list \<Rightarrow> js_error + (nat \<times> node list \<times> loader) \<Rightarrow> bool" where
  "node_step_ok nodes r =
     (\<exists>off' nodes' ld'. r = Inr (off', nodes', ld') \<and> (\<exists>new. nodes' = nodes @ new) \<and>
        (distinct (map n_addr nodes) \<longrightarrow> distinct (map n_addr nodes')))"

text \<open>
  A buffer of 128 bytes with one node record at offset 64 whose child and sibling
  offsets are both 64: the node is its own child and its own sibling.
\<close>

definition cyclic_buffer :: bytes where
  "cyclic_buffer =
     [0, 0, 0, 0, 0, 0, 0, 0, 0, 0, 0, 0, 0, 0, 0, 0,
      0, 0, 0, 0, 0, 0, 0, 0, 0, 0, 0, 0, 0, 0, 0, 0,
      0, 0, 0, 0, 0, 0, 0, 0, 0, 0, 0, 0, 0, 0, 0, 0,
      0, 0, 0, 0, 0, 0, 0, 0, 0, 0, 0, 0, 0, 0, 0, 0,
      1, 0, 0, 0, 0, 0, 0, 0, 0, 0, 0, 0, 0, 0, 0, 0,
      0, 0, 0, 0, 0, 0, 0, 0, 0, 0, 0, 0, 0, 0, 0, 0,
      0, 0, 0, 0, 0, 0, 0, 0, 0, 0, 0, 0, 64, 0, 0, 0,
      64, 0, 0, 0, 0, 0, 0, 0, 0, 0, 0, 0, 0, 0, 0, 0]"

section \<open>The layout of the polygon command stream\<close>

text \<open>
  The records that \<open>readPolygons\<close> recognises, as a datatype of commands with
  their byte encoding. The encoding writes what the loop reads, in the order in
  which it reads it (\<open>Mt5Loader.js\<close>, lines 221 to 345; section 4.3 of the
  specification describes the same records): a 16-bit little-endian opcode,
  then the fields of the record. It is the reference against which the decoder
  is verified, and is not used by the decoder itself.
\<close>

definition le16 :: "16 word \<Rightarrow> bytes" where
  "le16 w = [of_nat (unat w mod 256), of_nat (unat w div 256)]"

text \<open>
  A strip entry as it is stored: the signed 16-bit raw index, and the texture
  coordinates and the color bytes (in the order blue, green, red, alpha), which
  are written only for the opcodes that carry them. A strip is its stored signed
  length and its entries.
\<close>

record raw_entry =
  re_idx :: "16 word"
  re_texU :: "16 word"
  re_texV :: "16 word"
  re_blue :: "8 word"
  re_green :: "8 word"
  re_red :: "8 word"
  re_alpha :: "8 word"

type_synonym raw_strip = "16 word \<times> raw_entry list"

datatype command =
    CmdNull "16 word"
  | CmdAttr "16 word" bytes
  | CmdTexture "16 word"
  | CmdUvSize "16 word"
  | CmdSkip2 "16 word" bytes
  | CmdSkip10 "16 word" bytes
  | CmdStrips "16 word" "16 word" "raw_strip list"

text \<open>The opcodes of a strip group that carry texture coordinates, and those that carry a color.\<close>

definition stream_hasUV :: "16 word \<Rightarrow> bool" where
  "stream_hasUV t = (unat t = 0x11 \<or> unat t = 0x14 \<or> unat t = 0x19 \<or> unat t = 0x1C)"

definition stream_hasColor :: "16 word \<Rightarrow> bool" where
  "stream_hasColor t = (unat t = 0x12 \<or> unat t = 0x14 \<or> unat t = 0x1A \<or> unat t = 0x1C)"

definition enc_entry :: "bool \<Rightarrow> bool \<Rightarrow> raw_entry \<Rightarrow> bytes" where
  "enc_entry hasUV hasColor e =
     le16 (re_idx e) @
     (if hasUV then le16 (re_texU e) @ le16 (re_texV e) else []) @
     (if hasColor then [re_blue e, re_green e, re_red e, re_alpha e] else [])"

definition enc_strip :: "bool \<Rightarrow> bool \<Rightarrow> raw_strip \<Rightarrow> bytes" where
  "enc_strip hasUV hasColor s = le16 (fst s) @ concat (map (enc_entry hasUV hasColor) (snd s))"

fun enc_command :: "command \<Rightarrow> bytes" where
  "enc_command (CmdNull w) = le16 w"
| "enc_command (CmdAttr t data) = le16 t @ le16 (of_nat (length data)) @ data"
| "enc_command (CmdTexture n) = le16 0x0009 @ le16 n"
| "enc_command (CmdUvSize n) = le16 0x000B @ le16 n"
| "enc_command (CmdSkip2 t bs) = le16 t @ bs"
| "enc_command (CmdSkip10 t bs) = le16 t @ bs"
| "enc_command (CmdStrips t u strips) =
     le16 t @ le16 u @ le16 (of_nat (length strips)) @
     concat (map (enc_strip (stream_hasUV t) (stream_hasColor t)) strips)"

definition enc_stream :: "command list \<Rightarrow> bytes" where
  "enc_stream cmds = concat (map enc_command cmds)"

text \<open>
  A command is well formed when its opcode is one of the opcodes of its kind, its
  lengths fit their 16-bit fields, and every strip has as many entries as the
  absolute value of its stored length.
\<close>

fun wf_command :: "command \<Rightarrow> bool" where
  "wf_command (CmdNull w) = (unat w = 0x0000 \<or> unat w = 0xFFFF)"
| "wf_command (CmdAttr t data) = (0x0002 \<le> unat t \<and> unat t \<le> 0x0007 \<and> length data < 65536)"
| "wf_command (CmdTexture n) = True"
| "wf_command (CmdUvSize n) = True"
| "wf_command (CmdSkip2 t bs) = ((unat t = 0x0008 \<or> unat t = 0x000A) \<and> length bs = 2)"
| "wf_command (CmdSkip10 t bs) = ((unat t = 0x000E \<or> unat t = 0x000F) \<and> length bs = 10)"
| "wf_command (CmdStrips t u strips) =
     (0x10 \<le> unat t \<and> unat t \<le> 0x1F \<and> length strips < 65536 \<and>
      list_all (\<lambda>s. length (snd s) = nat \<bar>sint (fst s)\<bar>) strips)"

text \<open>
  What the stream denotes according to the specification: the global index of a
  raw index (from the pool base when it is not negative, back from the end of the
  window of the mesh when it is), the conversion of a raw texture coordinate, the
  decoded entry, and the effect of each command on the state carried across the
  records. \<open>stream_start\<close> is the state in which a stream begins,
  \<open>spec_polygons\<close> the list of strip groups that a stream of commands
  denotes, and \<open>stream_strips\<close> the stored strips of its strip groups, in
  stream order.
\<close>

definition spec_index :: "nat \<Rightarrow> nat \<Rightarrow> int \<Rightarrow> int" where
  "spec_index base N r = (if 0 \<le> r then int base + r else int base + int N + r)"

definition spec_uv :: "bool \<Rightarrow> nat \<Rightarrow> bool \<Rightarrow> int \<Rightarrow> real" where
  "spec_uv highPrecision divisor mirror raw =
     (let c = (if highPrecision then real_of_int raw * 0.000015258789
               else if \<bar>raw\<bar> < 0xF000 then real_of_int raw / real divisor
               else real_of_int raw * 0.00000000023283064)
      in if mirror \<and> \<bar>c\<bar> > 1 then c / 2 else c)"

definition spec_entry :: "nat \<Rightarrow> nat \<Rightarrow> poly_state \<Rightarrow> bool \<Rightarrow> bool \<Rightarrow> raw_entry \<Rightarrow> strip_vertex" where
  "spec_entry base N st hasUV hasColor e =
     \<lparr>sv_idx = spec_index base N (sint (re_idx e)),
      sv_u = (if hasUV then spec_uv (isUVH st) (uvSize st) (uMirror st) (sint (re_texU e)) else 0),
      sv_v = (if hasUV then spec_uv (isUVH st) (uvSize st) (vMirror st) (sint (re_texV e)) else 0),
      sv_color = (if hasColor
                  then [real (unat (re_red e)) / 255, real (unat (re_green e)) / 255,
                        real (unat (re_blue e)) / 255, real (unat (re_alpha e)) / 255]
                  else [1, 1, 1, 1])\<rparr>"

fun spec_command :: "nat \<Rightarrow> nat \<Rightarrow> command \<Rightarrow> poly_state \<Rightarrow> poly_state" where
  "spec_command base N (CmdNull w) st = st"
| "spec_command base N (CmdAttr t data) st =
     (let st = (if 1 \<le> length data then st\<lparr>isUVH := (data ! 0 AND 1 = 1)\<rparr> else st)
      in if 11 \<le> length data
         then st\<lparr>uMirror := (data ! 10 AND 4 = 4), vMirror := (data ! 10 AND 2 = 2)\<rparr>
         else st)"
| "spec_command base N (CmdTexture n) st = st\<lparr>currentTexIdx := unat n\<rparr>"
| "spec_command base N (CmdUvSize n) st = (if unat n \<noteq> 0 then st\<lparr>uvSize := unat n\<rparr> else st)"
| "spec_command base N (CmdSkip2 t bs) st = st"
| "spec_command base N (CmdSkip10 t bs) st = st"
| "spec_command base N (CmdStrips t u strips) st =
     st\<lparr>polygons := polygons st @
        [\<lparr>poly_strips = map (\<lambda>s. map (spec_entry base N st (stream_hasUV t) (stream_hasColor t)) (snd s))
                          strips,
          poly_head = unat t, poly_texId = currentTexIdx st\<rparr>]\<rparr>"

definition spec_stream :: "nat \<Rightarrow> nat \<Rightarrow> command list \<Rightarrow> poly_state \<Rightarrow> poly_state" where
  "spec_stream base N cmds st = fold (spec_command base N) cmds st"

definition stream_start :: poly_state where
  "stream_start = \<lparr>polygons = [], currentTexIdx = 0, isUVH = False, uvSize = 1024,
                    uMirror = False, vMirror = False\<rparr>"

definition spec_polygons :: "nat \<Rightarrow> nat \<Rightarrow> command list \<Rightarrow> polygon list" where
  "spec_polygons base N cmds = polygons (spec_stream base N cmds stream_start)"

fun stream_strips :: "command list \<Rightarrow> raw_strip list list" where
  "stream_strips [] = []"
| "stream_strips (CmdStrips t u strips # cs) = strips # stream_strips cs"
| "stream_strips (c # cs) = stream_strips cs"

text \<open>\<open>bytes_at buf off xs\<close>: the bytes \<open>xs\<close> stand in the buffer at offset \<open>off\<close>.\<close>

definition bytes_at :: "bytes \<Rightarrow> nat \<Rightarrow> bytes \<Rightarrow> bool" where
  "bytes_at buf off xs = (off + length xs \<le> length buf \<and> take (length xs) (drop off buf) = xs)"

text \<open>
  A stream of one strip group (opcode \<open>0x10\<close>, one strip of five entries
  with the raw indices 0 to 4) followed by the unrecognised opcode \<open>0x0001\<close>
  and three more bytes; the group that it denotes; and a buffer that holds the
  32 bytes of a mesh (no vertex block, vertex count 5, polygon stream at offset
  32) followed by this stream.
\<close>

definition five_entry_stream :: bytes where
  "five_entry_stream =
     [0x10, 0, 0, 0, 1, 0, 5, 0, 0, 0, 1, 0, 2, 0, 3, 0, 4, 0, 0x01, 0, 0, 0, 0]"

definition mesh_buffer :: bytes where
  "mesh_buffer =
     [0, 0, 0, 0, 0, 0, 0, 0, 5, 0, 0, 0, 32, 0, 0, 0,
      0, 0, 0, 0, 0, 0, 0, 0, 0, 0, 0, 0, 0, 0, 0, 0] @ five_entry_stream"

definition plain_entry :: "16 word \<Rightarrow> raw_entry" where
  "plain_entry r = \<lparr>re_idx = r, re_texU = 0, re_texV = 0, re_blue = 0, re_green = 0,
                     re_red = 0, re_alpha = 0\<rparr>"

definition five_entry_group :: polygon where
  "five_entry_group =
     \<lparr>poly_strips = [map (\<lambda>k. \<lparr>sv_idx = k, sv_u = 0, sv_v = 0, sv_color = [1, 1, 1, 1]\<rparr>)
                        [0, 1, 2, 3, 4]],
      poly_head = 16, poly_texId = 0\<rparr>"

section \<open>The reads of BinaryReader never throw\<close>

lemma readUInt8_total:
  "readUInt8 buf off =
     Inr (if off + 1 \<le> length buf then (le_nat (take 1 (drop off buf)), off + 1)
          else (0, length buf))"
  by (simp add: readUInt8_def canRead_def getUint8_def)

lemma readUInt16_total:
  "readUInt16 buf off =
     Inr (if off + 2 \<le> length buf then (le_nat (take 2 (drop off buf)), off + 2)
          else (0, length buf))"
  by (simp add: readUInt16_def canRead_def getUint16_def)

lemma readInt16_total:
  "readInt16 buf off =
     Inr (if off + 2 \<le> length buf
          then (sint (word_of_nat (le_nat (take 2 (drop off buf))) :: 16 word), off + 2)
          else (0, length buf))"
  by (simp add: readInt16_def canRead_def getInt16_def)

lemma readUInt32_total:
  "readUInt32 buf off =
     Inr (if off + 4 \<le> length buf then (le_nat (take 4 (drop off buf)), off + 4)
          else (0, length buf))"
  by (simp add: readUInt32_def canRead_def getUint32_def)

lemma readInt32_total:
  "readInt32 buf off =
     Inr (if off + 4 \<le> length buf
          then (sint (word_of_nat (le_nat (take 4 (drop off buf))) :: 32 word), off + 4)
          else (0, length buf))"
  by (simp add: readInt32_def canRead_def getInt32_def)

lemma readFloat32_total:
  "readFloat32 buf off =
     Inr (if off + 4 \<le> length buf
          then (Float32 (word_of_nat (le_nat (take 4 (drop off buf)))), off + 4)
          else (f32_zero, length buf))"
  by (simp add: readFloat32_def canRead_def getFloat32_def)

lemma readBytes_total:
  "readBytes buf off len =
     Inr (if off < length buf \<and> 0 < len
          then (\<lparr>abuf = buf, aoff = off, alen = min len (length buf - off)\<rparr>,
                off + min len (length buf - off))
          else (u8_empty, off))"
  by (auto simp: readBytes_def Let_def new_Uint8Array_def min_def)

text \<open>
  Claim C3, as amended. In a cursor state where fewer bytes remain than the read
  needs, every fixed-width read (8, 16 and 32 bits, signed and unsigned, and the
  32-bit float) returns zero without throwing and leaves the cursor at the end of
  the buffer. The byte-slice read does not throw either, but it does not return
  an empty slice: from a cursor inside the buffer it returns the bytes that
  remain (fewer than asked for, none when the cursor is at the end) and leaves
  the cursor at the end of the buffer.
\<close>

theorem C3_overrun_reads:
  "(length buf < off + 1 \<longrightarrow> readUInt8 buf off = Inr (0, length buf)) \<and>
   (length buf < off + 2 \<longrightarrow>
      readUInt16 buf off = Inr (0, length buf) \<and> readInt16 buf off = Inr (0, length buf)) \<and>
   (length buf < off + 4 \<longrightarrow>
      readUInt32 buf off = Inr (0, length buf) \<and> readInt32 buf off = Inr (0, length buf) \<and>
      readFloat32 buf off = Inr (f32_zero, length buf)) \<and>
   (length buf < off + len \<and> off \<le> length buf \<longrightarrow>
      (\<exists>a. readBytes buf off len = Inr (a, length buf) \<and>
            u8_bytes a = drop off buf \<and> alen a = length buf - off))"
  by (auto simp: readUInt8_total readUInt16_total readInt16_total readUInt32_total
        readInt32_total readFloat32_total readBytes_total u8_bytes_def u8_empty_def min_def)

theorem C3_overrun_reads_witness:
  "readUInt8 [1, 2, 3] 3 = Inr (0, 3) \<and>
   readUInt16 [1, 2, 3] 3 = Inr (0, 3) \<and> readInt16 [1, 2, 3] 3 = Inr (0, 3) \<and>
   readUInt32 [1, 2, 3] 3 = Inr (0, 3) \<and> readInt32 [1, 2, 3] 3 = Inr (0, 3) \<and>
   readFloat32 [1, 2, 3] 3 = Inr (f32_zero, 3) \<and>
   (\<exists>a. readBytes [1, 2, 3] 3 8 = Inr (a, 3) \<and> u8_bytes a = [] \<and> alen a = 0)"
proof -
  have len: "length [1, 2, 3 :: 8 word] = 3" by simp
  show ?thesis using C3_overrun_reads [of "[1, 2, 3]" 3 8] unfolding len by simp
qed

text \<open>
  The claim as written fails for the byte-slice read: with three bytes left and
  eight requested, \<open>readBytes\<close> returns the three remaining bytes.
\<close>

theorem C3_counterexample:
  "length [1, 2, 3 :: 8 word] < 0 + 8 \<and>
   readBytes [1, 2, 3] 0 8 = Inr (\<lparr>abuf = [1, 2, 3], aoff = 0, alen = 3\<rparr>, 3) \<and>
   u8_bytes \<lparr>abuf = [1, 2, 3], aoff = 0, alen = 3\<rparr> = [1, 2, 3] \<and>
   u8_bytes \<lparr>abuf = [1, 2, 3], aoff = 0, alen = 3\<rparr> \<noteq> []"
  by (simp add: readBytes_total u8_bytes_def)

section \<open>The texture decoder on concrete buffers\<close>

lemmas decode_eval =
  readString_def readString_loop.simps readUInt8_total readUInt16_total canRead_def
  skip_def seek_def decodeRaw_def decodeRaw_y.simps decodeRaw_x.simps readUInt16At_def
  getUint16_def decodeColor_def store_rgba_def u8_store_def Let_def

lemma replicate_8_zero: "replicate 8 (0::8 word) = [0, 0, 0, 0, 0, 0, 0, 0]"
  by (simp add: numeral_eq_Suc)

text \<open>
  Claim C1, as amended. The bare header with pixel format 1 (565), data format 9,
  width 2, height 1 and the pixels \<open>0xF800\<close>, \<open>0x07E0\<close> decodes to the eight
  bytes \<open>[248,0,0,255, 0,252,0,255]\<close>: color expansion shifts the 5-bit and
  6-bit fields left and does not replicate their high bits into the low ones, so
  full red is 248 and full green is 252.
\<close>

theorem C1_decode_565_example:
  "decode [1, 9, 0, 0, 2, 0, 1, 0, 0x00, 0xF8, 0xE0, 0x07] =
     Inr (Some \<lparr>pixelData = [248, 0, 0, 255, 0, 252, 0, 255], tex_width = 2, tex_height = 1,
                 hasAlpha = False, hasGradientAlpha = False\<rparr>)"
  by (simp add: decode_def decode_eval replicate_8_zero)

text \<open>The pixel buffer the claim states, \<open>[255,0,0,255, 0,255,0,255]\<close>, is not returned.\<close>

theorem C1_counterexample:
  "map_sum id (map_option pixelData) (decode [1, 9, 0, 0, 2, 0, 1, 0, 0x00, 0xF8, 0xE0, 0x07])
     \<noteq> Inr (Some [255, 0, 0, 255, 0, 255, 0, 255])"
  by (simp add: decode_def decode_eval replicate_8_zero)

text \<open>
  Claim C2 at a failing input. \<open>decode\<close> skips the \<open>PVRT\<close> tag and the length
  and reads the header behind them, but \<open>decodeRaw\<close> fetches the pixels from the
  fixed position 8 of the buffer, where the wrapped buffer holds the header.
  The payload of claim C1 decodes to \<open>[248,0,0,255, 0,252,0,255]\<close> bare and to
  \<open>[8,32,8,255, 0,0,0,255]\<close> behind the wrapper.
\<close>

theorem C2_wrapped_raw_differs:
  "decode (map of_char ''PVRT'' @ [12, 0, 0, 0] @ [1, 9, 0, 0, 2, 0, 1, 0, 0x00, 0xF8, 0xE0, 0x07]) =
     Inr (Some \<lparr>pixelData = [8, 32, 8, 255, 0, 0, 0, 255], tex_width = 2, tex_height = 1,
                 hasAlpha = False, hasGradientAlpha = False\<rparr>) \<and>
   decode (map of_char ''PVRT'' @ [12, 0, 0, 0] @ [1, 9, 0, 0, 2, 0, 1, 0, 0x00, 0xF8, 0xE0, 0x07])
     \<noteq> decode [1, 9, 0, 0, 2, 0, 1, 0, 0x00, 0xF8, 0xE0, 0x07]"
  by (simp add: decode_def decode_eval replicate_8_zero)

section \<open>Color expansion\<close>

lemma and_15_less: "(x::nat) AND 15 < 16"
proof -
  have "(15::nat) = mask 4" by (simp add: mask_eq_exp_minus_1)
  then have "x AND 15 = take_bit 4 x" by (simp add: take_bit_eq_mask)
  then show ?thesis by (simp add: take_bit_eq_mod)
qed

text \<open>
  Claim C4, as amended. For every source color \<open>v\<close>: format 1 (565) yields
  alpha 255; format 0 (1555) yields alpha 0 or 255; format 2 (4444) yields one of
  the 16 levels \<open>16 * k\<close>, \<open>k = 0 .. 15\<close>, that is multiples of 16 up to 240
  (the 4-bit field shifted left by 4), not multiples of 17.
\<close>

theorem C4_alpha_levels:
  "snd (snd (snd (decodeColor v 1))) = 255 \<and>
   snd (snd (snd (decodeColor v 0))) \<in> {0, 255} \<and>
   (\<exists>k<16. snd (snd (snd (decodeColor v 2))) = 16 * k)"
  using and_15_less [of "drop_bit 12 v"] by (simp add: decodeColor_def push_bit_eq_mult)

text \<open>The 16-bit color \<open>0x1000\<close> in format 4444 has alpha 16, which 17 does not divide.\<close>

theorem C4_counterexample:
  "snd (snd (snd (decodeColor 0x1000 2))) = 16 \<and>
   \<not> 17 dvd snd (snd (snd (decodeColor 0x1000 2)))"
  by (simp add: decodeColor_def)

section \<open>Twiddled addressing\<close>

lemma bit_untwiddle_step:
  "bit ((res OR (if x AND push_bit i 1 \<noteq> 0 then push_bit (2 * i + 1) 1 else 0))
             OR (if y AND push_bit i 1 \<noteq> 0 then push_bit (2 * i) 1 else 0)) n \<longleftrightarrow>
   bit res n \<or> (n = 2 * i + 1 \<and> bit x i) \<or> (n = 2 * i \<and> bit y (i::nat))"
  for res x y :: nat
proof -
  have bx: "x AND push_bit i 1 \<noteq> 0 \<longleftrightarrow> bit x i" for x :: nat
    by (simp only: bit_iff_and_push_bit_not_eq_0)
  show ?thesis
    unfolding bx by (auto simp: bit_or_iff bit_exp_iff bit_double_iff)
qed

lemma ex_from_step:
  assumes "i < (10::nat)"
  shows "(\<exists>j. i \<le> j \<and> j < 10 \<and> P j) \<longleftrightarrow> P i \<or> (\<exists>j. i + 1 \<le> j \<and> j < 10 \<and> P j)"
proof
  assume "\<exists>j. i \<le> j \<and> j < 10 \<and> P j"
  then obtain j where j: "i \<le> j" "j < 10" "P j" by blast
  show "P i \<or> (\<exists>j. i + 1 \<le> j \<and> j < 10 \<and> P j)"
  proof (cases "j = i")
    case True with j show ?thesis by simp
  next
    case False with j have "i + 1 \<le> j" by simp
    with j show ?thesis by blast
  qed
next
  assume "P i \<or> (\<exists>j. i + 1 \<le> j \<and> j < 10 \<and> P j)"
  then show "\<exists>j. i \<le> j \<and> j < 10 \<and> P j"
  proof
    assume "P i" with assms show ?thesis by blast
  next
    assume "\<exists>j. i + 1 \<le> j \<and> j < 10 \<and> P j"
    then obtain j where "i + 1 \<le> j" "j < 10" "P j" by blast
    then have "i \<le> j \<and> j < 10 \<and> P j" by simp
    then show ?thesis by blast
  qed
qed

lemma bit_untwiddle_loop:
  "bit (untwiddle_loop x y i res) n \<longleftrightarrow>
     bit res n \<or> (\<exists>j. i \<le> j \<and> j < 10 \<and> ((n = 2 * j + 1 \<and> bit x j) \<or> (n = 2 * j \<and> bit y j)))"
proof (induction x y i res rule: untwiddle_loop.induct)
  case (1 x y i res)
  show ?case
  proof (cases "i < 10")
    case False
    then show ?thesis by (subst untwiddle_loop.simps) auto
  next
    case True
    let ?res = "(res OR (if x AND push_bit i 1 \<noteq> 0 then push_bit (2 * i + 1) 1 else 0))
                  OR (if y AND push_bit i 1 \<noteq> 0 then push_bit (2 * i) 1 else 0)"
    let ?P = "\<lambda>j. (n = 2 * j + 1 \<and> bit x j) \<or> (n = 2 * j \<and> bit y j)"
    have a: "untwiddle_loop x y i res = untwiddle_loop x y (i + 1) ?res"
      using True by (subst untwiddle_loop.simps) simp
    have b: "bit (untwiddle_loop x y (i + 1) ?res) n \<longleftrightarrow>
             bit ?res n \<or> (\<exists>j. i + 1 \<le> j \<and> j < 10 \<and> ?P j)"
      by (rule "1.IH"[OF True])
    have c: "bit ?res n \<longleftrightarrow> bit res n \<or> ?P i"
      by (simp only: bit_untwiddle_step)
    have d: "(\<exists>j. i \<le> j \<and> j < 10 \<and> ?P j) \<longleftrightarrow> ?P i \<or> (\<exists>j. i + 1 \<le> j \<and> j < 10 \<and> ?P j)"
      by (rule ex_from_step [OF True])
    show ?thesis
      unfolding a b c d by (simp only: disj_assoc)
  qed
qed

lemma bit_untwiddle:
  "bit (untwiddle x y) n \<longleftrightarrow>
     (\<exists>j. j < 10 \<and> ((n = 2 * j + 1 \<and> bit x j) \<or> (n = 2 * j \<and> bit y j)))"
proof -
  have "bit (untwiddle x y) n \<longleftrightarrow> bit (0::nat) n \<or>
     (\<exists>j. 0 \<le> j \<and> j < 10 \<and> ((n = 2 * j + 1 \<and> bit x j) \<or> (n = 2 * j \<and> bit y j)))"
    unfolding untwiddle_def by (rule bit_untwiddle_loop)
  then show ?thesis by (simp only: bit_0_eq le0 simp_thms bot_apply bot_bool_def)
qed


lemma bit_untwiddle_odd: "i < 10 \<Longrightarrow> bit (untwiddle x y) (Suc (2 * i)) \<longleftrightarrow> bit x i"
proof -
  assume i: "i < 10"
  have "Suc (2 * i) = 2 * j + 1 \<longleftrightarrow> j = i" "Suc (2 * i) \<noteq> 2 * j" for j
    by presburger+
  then show ?thesis
    unfolding bit_untwiddle using i by simp
qed

lemma bit_untwiddle_even: "i < 10 \<Longrightarrow> bit (untwiddle x y) (2 * i) \<longleftrightarrow> bit y i"
proof -
  assume i: "i < 10"
  have "2 * i = 2 * j \<longleftrightarrow> j = i" "2 * i \<noteq> 2 * j + 1" for j
    by presburger+
  then show ?thesis
    unfolding bit_untwiddle using i by simp
qed

lemma untwiddle_less: "untwiddle x y < 2 ^ 20"
proof -
  have b: "bit (untwiddle x y) n \<Longrightarrow> n < 20" for n
    unfolding bit_untwiddle by auto
  have "take_bit 20 (untwiddle x y) = untwiddle x y"
    by (rule bit_eqI) (auto simp: bit_take_bit_iff dest: b)
  then show ?thesis
    by (metis take_bit_nat_less_exp)
qed
lemma spec_extract_untwiddle:
  assumes "x < 1024" "y < 1024"
  shows "spec_extract_xy (untwiddle x y) = (x, y)"
proof -
  have mx: "map (\<lambda>i. bit (untwiddle x y) (2 * i + 1)) [0..<10] = map (bit x) [0..<10]"
    by (rule map_cong) (simp_all add: bit_untwiddle_odd)
  have my: "map (\<lambda>i. bit (untwiddle x y) (2 * i)) [0..<10] = map (bit y) [0..<10]"
    by (rule map_cong) (simp_all add: bit_untwiddle_even)
  have tx: "take_bit 10 x = x" "take_bit 10 y = y"
    using assms by (simp_all add: take_bit_nat_eq_self)
  show ?thesis
    unfolding spec_extract_xy_def mx my horner_sum_bit_eq_take_bit tx ..
qed

text \<open>
  Claim C5. For all \<open>x\<close> and \<open>y\<close> below 1024, \<open>untwiddle x y\<close> has bit \<open>i\<close>
  of \<open>x\<close> at position \<open>2i+1\<close> and bit \<open>i\<close> of \<open>y\<close> at position \<open>2i\<close>;
  extracting these positions gives back \<open>(x, y)\<close>; the address is below
  \<open>2^20\<close>; and no other pair of coordinates below 1024 has the same address.
\<close>

theorem C5:
  assumes "x < 1024" "y < 1024"
  shows "(\<forall>i<10. bit (untwiddle x y) (2 * i + 1) = bit x i \<and>
                 bit (untwiddle x y) (2 * i) = bit y i) \<and>
         spec_extract_xy (untwiddle x y) = (x, y) \<and>
         untwiddle x y < 2 ^ 20 \<and>
         (\<forall>x' y'. x' < 1024 \<and> y' < 1024 \<and> untwiddle x' y' = untwiddle x y \<longrightarrow> x' = x \<and> y' = y)"
proof (intro conjI allI impI)
  fix i :: nat assume "i < 10"
  then show "bit (untwiddle x y) (2 * i + 1) = bit x i" by (simp add: bit_untwiddle_odd)
  from \<open>i < 10\<close> show "bit (untwiddle x y) (2 * i) = bit y i" by (simp add: bit_untwiddle_even)
next
  show "spec_extract_xy (untwiddle x y) = (x, y)" using assms by (rule spec_extract_untwiddle)
  show "untwiddle x y < 2 ^ 20" by (rule untwiddle_less)
next
  fix x' y' assume h: "x' < 1024 \<and> y' < 1024 \<and> untwiddle x' y' = untwiddle x y"
  then have b: "x' < 1024" "y' < 1024" and e: "untwiddle x' y' = untwiddle x y" by simp_all
  have "(x', y') = spec_extract_xy (untwiddle x' y')" using b by (simp only: spec_extract_untwiddle)
  also have "\<dots> = spec_extract_xy (untwiddle x y)" by (simp only: e)
  also have "\<dots> = (x, y)" using assms by (rule spec_extract_untwiddle)
  finally show "x' = x" "y' = y" by simp_all
qed

theorem C5_witness:
  "bit (untwiddle 3 5) (2 * 1 + 1) = bit (3::nat) 1 \<and>
   bit (untwiddle 3 5) (2 * 2) = bit (5::nat) 2 \<and>
   spec_extract_xy (untwiddle 3 5) = (3, 5) \<and>
   untwiddle 3 5 < 2 ^ 20"
proof -
  have "(3::nat) < 1024" "(5::nat) < 1024" by simp_all
  from C5 [OF this]
  have bits: "\<forall>i<10. bit (untwiddle 3 5) (2 * i + 1) = bit (3::nat) i \<and>
                       bit (untwiddle 3 5) (2 * i) = bit (5::nat) i"
    and rest: "spec_extract_xy (untwiddle 3 5) = (3, 5)" "untwiddle 3 5 < 2 ^ 20"
    by blast+
  have "(1::nat) < 10" "(2::nat) < 10" by simp_all
  with bits have "bit (untwiddle 3 5) (2 * 1 + 1) = bit (3::nat) 1"
    "bit (untwiddle 3 5) (2 * 2) = bit (5::nat) 2"
    by blast+
  with rest show ?thesis by blast
qed

section \<open>The polygon command stream\<close>

lemma readShort_total:
  "readShort buf off =
     Inr (if off + 2 \<le> length buf
          then (sint (word_of_nat (le_nat (take 2 (drop off buf))) :: 16 word), off + 2)
          else (0, length buf))"
  by (simp add: readShort_def readInt16_total)

lemma readUShort_total:
  "readUShort buf off =
     Inr (if off + 2 \<le> length buf then (le_nat (take 2 (drop off buf)), off + 2)
          else (0, length buf))"
  by (simp add: readUShort_def readUInt16_total)

lemma sint16_range: "- 32768 \<le> sint w \<and> sint w \<le> 32767" for w :: "16 word"
  using sint_ge [of w] sint_lt [of w] by simp

lemma readShort_range:
  assumes "readShort buf off = Inr (r, off1)"
  shows "- 32768 \<le> r \<and> r \<le> 32767"
proof (cases "off + 2 \<le> length buf")
  case True
  with assms have "r = sint (word_of_nat (le_nat (take 2 (drop off buf))) :: 16 word)"
    by (simp add: readShort_total)
  then show ?thesis by (simp only: sint16_range)
next
  case False
  with assms show ?thesis by (simp add: readShort_total)
qed

lemma readShort_ex: "\<exists>r off1. readShort buf off = Inr (r, off1)"
  by (simp add: readShort_total)

lemma readUInt8_ex: "\<exists>r off1. readUInt8 buf off = Inr (r, off1)"
  by (simp add: readUInt8_total)

lemma readStripVertex_result:
  assumes r: "readShort buf off = Inr (r, off1)"
    and tu: "readShort buf off1 = Inr (tu, o2)"
    and tv: "readShort buf o2 = Inr (tv, o3)"
  shows "\<exists>e off'. readStripVertex buf vertexBase nbVertex hasUV hasColor st off = Inr (e, off') \<and>
           sv_idx e = (if r < 0 then int vertexBase + int nbVertex + r else int vertexBase + r) \<and>
           (hasUV \<longrightarrow>
              sv_u e =
                (let u = (if isUVH st then real_of_int tu * 0.000015258789
                          else if \<bar>tu\<bar> < 0xF000 then real_of_int tu / real (uvSize st)
                          else real_of_int tu * 0.00000000023283064)
                 in if uMirror st \<and> \<bar>u\<bar> > 1.0 then u / 2.0 else u) \<and>
              sv_v e =
                (let v = (if isUVH st then real_of_int tv * 0.000015258789
                          else if \<bar>tv\<bar> < 0xF000 then real_of_int tv / real (uvSize st)
                          else real_of_int tv * 0.00000000023283064)
                 in if vMirror st \<and> \<bar>v\<bar> > 1.0 then v / 2.0 else v))"
proof -
  define oc where "oc = (if hasUV then o3 else off1)"
  obtain b c1 where b: "readUInt8 buf oc = Inr (b, c1)" using readUInt8_ex by blast
  obtain g c2 where g: "readUInt8 buf c1 = Inr (g, c2)" using readUInt8_ex by blast
  obtain rr c3 where rr: "readUInt8 buf c2 = Inr (rr, c3)" using readUInt8_ex by blast
  obtain a c4 where a: "readUInt8 buf c3 = Inr (a, c4)" using readUInt8_ex by blast
  show ?thesis
  proof (cases hasUV)
    case True
    with b have b': "readUInt8 buf o3 = Inr (b, c1)" by (simp add: oc_def)
    show ?thesis
      by (cases hasColor)
         (simp_all add: readStripVertex_def r tu tv b' g rr a True Let_def split del: if_split)
  next
    case False
    with b have b': "readUInt8 buf off1 = Inr (b, c1)" by (simp add: oc_def)
    show ?thesis
      by (cases hasColor)
         (simp_all add: readStripVertex_def r b' g rr a False Let_def split del: if_split)
  qed
qed

lemma readStripVertex_ex:
  "\<exists>e off'. readStripVertex buf vertexBase nbVertex hasUV hasColor st off = Inr (e, off')"
proof -
  obtain r off1 where r: "readShort buf off = Inr (r, off1)" using readShort_ex by blast
  obtain tu o2 where tu: "readShort buf off1 = Inr (tu, o2)" using readShort_ex by blast
  obtain tv o3 where tv: "readShort buf o2 = Inr (tv, o3)" using readShort_ex by blast
  from readStripVertex_result [OF r tu tv, of vertexBase nbVertex hasUV hasColor st]
  show ?thesis by blast
qed

lemma readStrip_loop_ex:
  "\<exists>s off'. readStrip_loop buf vertexBase nbVertex hasUV hasColor st absStripLen k off strip
              = Inr (s, off')"
proof (induction buf vertexBase nbVertex hasUV hasColor st absStripLen k off strip
       rule: readStrip_loop.induct)
  case (1 buf vertexBase nbVertex hasUV hasColor st absStripLen k off strip)
  show ?case
  proof (cases "k < absStripLen")
    case False
    then show ?thesis by (subst readStrip_loop.simps) simp
  next
    case True
    obtain e o1 where e: "readStripVertex buf vertexBase nbVertex hasUV hasColor st off = Inr (e, o1)"
      using readStripVertex_ex by blast
    from "1.IH" [OF True e refl] show ?thesis
      using True e by (subst readStrip_loop.simps) simp
  qed
qed

lemma readStrips_loop_ex:
  "\<exists>ss off'. readStrips_loop buf vertexBase nbVertex hasUV hasColor st nbStrips i off strips
              = Inr (ss, off')"
proof (induction buf vertexBase nbVertex hasUV hasColor st nbStrips i off strips
       rule: readStrips_loop.induct)
  case (1 buf vertexBase nbVertex hasUV hasColor st nbStrips i off strips)
  show ?case
  proof (cases "i < nbStrips")
    case False
    then show ?thesis by (subst readStrips_loop.simps) simp
  next
    case True
    obtain len o1 where len: "readShort buf off = Inr (len, o1)" using readShort_ex by blast
    obtain s o2 where s: "readStrip_loop buf vertexBase nbVertex hasUV hasColor st (nat \<bar>len\<bar>) 0 o1 []
        = Inr (s, o2)"
      using readStrip_loop_ex by blast
    from "1.IH" [OF True len refl refl s refl] show ?thesis
      using True len s by (subst readStrips_loop.simps) (simp add: Let_def)
  qed
qed

lemma readUShort_ex: "\<exists>r off1. readUShort buf off = Inr (r, off1)"
  by (simp add: readUShort_total)

lemma readPolygons_loop_step:
  assumes "int off < int (length buf) - 2 \<and> iterations < 10000"
    and "readUShort buf off = Inr (type, o1)"
  shows "readPolygons_loop buf vertexBase nbVertex iterations st off =
          (if type = 0x8000 then Inr (polygons st, o1)
          else if type = 0x0000 \<or> type = 0xFFFF then
            readPolygons_loop buf vertexBase nbVertex (iterations + 1) st o1
          else if type \<ge> 0x0002 \<and> type \<le> 0x0007 then
            bindE (readUShort buf o1) (\<lambda>(size, off).
            bindE (readBytes buf off size) (\<lambda>(data, off).
              let st = (if alen data \<ge> 1 then st\<lparr>isUVH := (u8_get data 0 AND 1 = 1)\<rparr> else st);
                  st = (if alen data \<ge> 11
                        then st\<lparr>uMirror := (u8_get data 10 AND 4 = 4),
                                vMirror := (u8_get data 10 AND 2 = 2)\<rparr>
                        else st)
              in readPolygons_loop buf vertexBase nbVertex (iterations + 1) st off))
          else if type = 0x0009 then
            bindE (readUShort buf o1) (\<lambda>(t, off).
              readPolygons_loop buf vertexBase nbVertex (iterations + 1)
                (st\<lparr>currentTexIdx := t\<rparr>) off)
          else if type = 0x000B then
            bindE (readUShort buf o1) (\<lambda>(sizeVal, off).
              readPolygons_loop buf vertexBase nbVertex (iterations + 1)
                (if sizeVal \<noteq> 0 then st\<lparr>uvSize := sizeVal\<rparr> else st) off)
          else if type = 0x0008 \<or> type = 0x000A then
            readPolygons_loop buf vertexBase nbVertex (iterations + 1) st (skip buf o1 2)
          else if type = 0x000E \<or> type = 0x000F then
            readPolygons_loop buf vertexBase nbVertex (iterations + 1) st (skip buf o1 10)
          else if type \<ge> 0x10 \<and> type \<le> 0x1F then
            bindE (readUShort buf o1) (\<lambda>(unknown, off).
            bindE (readUShort buf off) (\<lambda>(nbStrips, off).
              let hasUV = (type = 0x11 \<or> type = 0x14 \<or> type = 0x19 \<or> type = 0x1C);
                  hasColor = (type = 0x12 \<or> type = 0x14 \<or> type = 0x1A \<or> type = 0x1C)
              in bindE (readStrips_loop buf vertexBase nbVertex hasUV hasColor st nbStrips 0 off [])
                   (\<lambda>(strips, off).
                      readPolygons_loop buf vertexBase nbVertex (iterations + 1)
                        (st\<lparr>polygons := polygons st @
                             [\<lparr>poly_strips = strips, poly_head = type, poly_texId = currentTexIdx st\<rparr>]\<rparr>)
                        off)))
          else Inr (polygons st, o1))"
  by (subst readPolygons_loop.simps) (simp only: assms simp_thms if_True bindE_Inr case_prod_conv)

lemma readBytes_ex: "\<exists>a off1. readBytes buf off len = Inr (a, off1)"
  by (simp add: readBytes_total)


lemma extends_weaken:
  assumes "\<exists>more off'. r = Inr (polygons st' @ more, off')"
    and "polygons st' = polygons st @ extra"
  shows "\<exists>more off'. r = Inr (polygons st @ more, off')"
  using assms by auto

lemma readPolygons_loop_extends:
  "\<exists>more off'. readPolygons_loop buf vertexBase nbVertex iterations st off
                = Inr (polygons st @ more, off')"
proof (induction buf vertexBase nbVertex iterations st off rule: readPolygons_loop.induct)
  case (1 buf vertexBase nbVertex iterations st off)
  let ?c = "int off < int (length buf) - 2 \<and> iterations < 10000"
  show ?case
  proof (cases ?c)
    case False
    have "readPolygons_loop buf vertexBase nbVertex iterations st off = Inr (polygons st, off)"
      by (subst readPolygons_loop.simps) (simp only: False simp_thms if_False)
    then show ?thesis by simp
  next
    case True
    obtain type o1 where t: "readUShort buf off = Inr (type, o1)" using readUShort_ex by blast
    note unf = readPolygons_loop_step [OF True t, of vertexBase nbVertex st]
    consider (stop) "type = 0x8000"
      | (null) "type \<noteq> 0x8000" "type = 0 \<or> type = 0xFFFF"
      | (attr) "type \<noteq> 0x8000" "\<not> (type = 0 \<or> type = 0xFFFF)" "2 \<le> type \<and> type \<le> 7"
      | (tex) "type \<noteq> 0x8000" "\<not> (type = 0 \<or> type = 0xFFFF)" "\<not> (2 \<le> type \<and> type \<le> 7)" "type = 9"
      | (uvs) "type \<noteq> 0x8000" "\<not> (type = 0 \<or> type = 0xFFFF)" "\<not> (2 \<le> type \<and> type \<le> 7)" "type \<noteq> 9"
              "type = 11"
      | (sk2) "type \<noteq> 0x8000" "\<not> (type = 0 \<or> type = 0xFFFF)" "\<not> (2 \<le> type \<and> type \<le> 7)" "type \<noteq> 9"
              "type \<noteq> 11" "type = 8 \<or> type = 10"
      | (sk10) "type \<noteq> 0x8000" "\<not> (type = 0 \<or> type = 0xFFFF)" "\<not> (2 \<le> type \<and> type \<le> 7)" "type \<noteq> 9"
              "type \<noteq> 11" "\<not> (type = 8 \<or> type = 10)" "type = 14 \<or> type = 15"
      | (strip) "type \<noteq> 0x8000" "\<not> (type = 0 \<or> type = 0xFFFF)" "\<not> (2 \<le> type \<and> type \<le> 7)" "type \<noteq> 9"
              "type \<noteq> 11" "\<not> (type = 8 \<or> type = 10)" "\<not> (type = 14 \<or> type = 15)"
              "16 \<le> type \<and> type \<le> 31"
      | (unknown) "type \<noteq> 0x8000" "\<not> (type = 0 \<or> type = 0xFFFF)" "\<not> (2 \<le> type \<and> type \<le> 7)" "type \<noteq> 9"
              "type \<noteq> 11" "\<not> (type = 8 \<or> type = 10)" "\<not> (type = 14 \<or> type = 15)"
              "\<not> (16 \<le> type \<and> type \<le> 31)"
      by blast
    then show ?thesis
    proof cases
      case stop
      have "readPolygons_loop buf vertexBase nbVertex iterations st off = Inr (polygons st, o1)"
        unfolding unf by (simp only: stop simp_thms if_True)
      then show ?thesis by simp
    next
      case null
      have eq: "readPolygons_loop buf vertexBase nbVertex iterations st off =
                readPolygons_loop buf vertexBase nbVertex (iterations + 1) st o1"
        unfolding unf by (simp only: null simp_thms if_True if_False)
      from "1.IH"(1) [OF True t refl null] show ?thesis
        unfolding eq .
    next
      case attr
      obtain size o2 where sz: "readUShort buf o1 = Inr (size, o2)" using readUShort_ex by blast
      obtain data o3 where d: "readBytes buf o2 size = Inr (data, o3)" using readBytes_ex by blast
      define st1 where "st1 = (if 1 \<le> alen data then st\<lparr>isUVH := u8_get data 0 AND 1 = 1\<rparr> else st)"
      define st2 where "st2 = (if 11 \<le> alen data
          then st1\<lparr>uMirror := u8_get data 10 AND 4 = 4, vMirror := u8_get data 10 AND 2 = 2\<rparr>
          else st1)"
      have p: "polygons st2 = polygons st @ []" by (simp add: st1_def st2_def)
      have eq: "readPolygons_loop buf vertexBase nbVertex iterations st off =
                readPolygons_loop buf vertexBase nbVertex (iterations + 1) st2 o3"
        unfolding unf st2_def st1_def
        by (simp only: attr simp_thms if_True if_False sz d bindE_Inr case_prod_conv Let_def)
      from extends_weaken [OF "1.IH"(2) [OF True t refl attr sz refl d refl st1_def st2_def] p]
      show ?thesis
        unfolding eq .
    next
      case tex
      obtain x o2 where x: "readUShort buf o1 = Inr (x, o2)" using readUShort_ex by blast
      have p: "polygons (st\<lparr>currentTexIdx := x\<rparr>) = polygons st @ []" by simp
      have eq: "readPolygons_loop buf vertexBase nbVertex iterations st off =
                readPolygons_loop buf vertexBase nbVertex (iterations + 1) (st\<lparr>currentTexIdx := x\<rparr>) o2"
        unfolding unf by (simp add: tex x)
      from extends_weaken [OF "1.IH"(3) [OF True t refl tex x refl] p] show ?thesis
        unfolding eq .
    next
      case uvs
      obtain x o2 where x: "readUShort buf o1 = Inr (x, o2)" using readUShort_ex by blast
      have p: "polygons (if x \<noteq> 0 then st\<lparr>uvSize := x\<rparr> else st) = polygons st @ []" by simp
      have eq: "readPolygons_loop buf vertexBase nbVertex iterations st off =
                readPolygons_loop buf vertexBase nbVertex (iterations + 1)
                  (if x \<noteq> 0 then st\<lparr>uvSize := x\<rparr> else st) o2"
        unfolding unf by (simp add: uvs x)
      from extends_weaken [OF "1.IH"(4) [OF True t refl uvs x refl] p] show ?thesis
        unfolding eq .
    next
      case sk2
      have eq: "readPolygons_loop buf vertexBase nbVertex iterations st off =
                readPolygons_loop buf vertexBase nbVertex (iterations + 1) st (skip buf o1 2)"
        unfolding unf by (simp only: sk2 simp_thms if_True if_False)
      from "1.IH"(5) [OF True t refl sk2] show ?thesis
        unfolding eq .
    next
      case sk10
      have eq: "readPolygons_loop buf vertexBase nbVertex iterations st off =
                readPolygons_loop buf vertexBase nbVertex (iterations + 1) st (skip buf o1 10)"
        unfolding unf by (simp only: sk10 simp_thms if_True if_False)
      from "1.IH"(6) [OF True t refl sk10] show ?thesis
        unfolding eq .
    next
      case strip
      obtain unknown o2 where u: "readUShort buf o1 = Inr (unknown, o2)" using readUShort_ex by blast
      obtain nbStrips o3 where n: "readUShort buf o2 = Inr (nbStrips, o3)" using readUShort_ex by blast
      define hasUV where "hasUV = (type = 0x11 \<or> type = 0x14 \<or> type = 0x19 \<or> type = 0x1C)"
      define hasColor where "hasColor = (type = 0x12 \<or> type = 0x14 \<or> type = 0x1A \<or> type = 0x1C)"
      obtain ss o4 where ss: "readStrips_loop buf vertexBase nbVertex hasUV hasColor st nbStrips 0 o3 []
          = Inr (ss, o4)"
        using readStrips_loop_ex by blast
      have p: "polygons (st\<lparr>polygons := polygons st @
           [\<lparr>poly_strips = ss, poly_head = type, poly_texId = currentTexIdx st\<rparr>]\<rparr>) =
           polygons st @ [\<lparr>poly_strips = ss, poly_head = type, poly_texId = currentTexIdx st\<rparr>]"
        by simp
      have eq: "readPolygons_loop buf vertexBase nbVertex iterations st off =
                readPolygons_loop buf vertexBase nbVertex (iterations + 1)
                  (st\<lparr>polygons := polygons st @
                     [\<lparr>poly_strips = ss, poly_head = type, poly_texId = currentTexIdx st\<rparr>]\<rparr>) o4"
        unfolding unf using ss unfolding hasUV_def hasColor_def
        by (simp only: strip simp_thms if_True if_False u n bindE_Inr case_prod_conv Let_def)
      from extends_weaken
        [OF "1.IH"(7) [OF True t refl strip u refl n refl hasUV_def hasColor_def ss refl] p]
      show ?thesis
        unfolding eq .
    next
      case unknown
      have "readPolygons_loop buf vertexBase nbVertex iterations st off = Inr (polygons st, o1)"
        unfolding unf by (simp only: unknown simp_thms if_False)
      then show ?thesis by simp
    qed
  qed
qed

lemma readPolygons_loop_unknown:
  assumes "int off < int (length buf) - 2" and "iterations < 10000"
    and "readUShort buf off = Inr (type, off1)"
    and "type \<noteq> 0x8000" and "type \<noteq> 0x0000" and "type \<noteq> 0xFFFF"
    and "\<not> (0x0002 \<le> type \<and> type \<le> 0x000B)"
    and "type \<noteq> 0x000E" and "type \<noteq> 0x000F"
    and "\<not> (0x10 \<le> type \<and> type \<le> 0x1F)"
  shows "readPolygons_loop buf vertexBase nbVertex iterations st off = Inr (polygons st, off1)"
proof -
  have c: "int off < int (length buf) - 2 \<and> iterations < 10000" using assms(1,2) by simp
  show ?thesis
    unfolding readPolygons_loop_step [OF c assms(3)] using assms(4-10) by auto
qed

subsection \<open>The decoder on an encoded stream\<close>

lemma bytes_at_append:
  "bytes_at buf off (xs @ ys) = (bytes_at buf off xs \<and> bytes_at buf (off + length xs) ys)"
proof -
  have "take (length xs + length ys) (drop off buf) =
        take (length xs) (drop off buf) @ take (length ys) (drop (off + length xs) buf)"
    by (simp add: take_add add.commute)
  moreover have "off + (length xs + length ys) \<le> length buf \<Longrightarrow>
      length (take (length xs) (drop off buf)) = length xs"
    by simp
  ultimately show ?thesis
    unfolding bytes_at_def by (auto simp: add.assoc)
qed

lemma bytes_at_here: "bytes_at (pre @ xs @ rest) (length pre) xs"
  by (simp add: bytes_at_def)

lemma length_le16 [simp]: "length (le16 w) = 2"
  by (simp add: le16_def)

lemma le_nat_le16: "le_nat (le16 w) = unat w"
proof -
  have "unat w < 65536" using unsigned_less [of w, where ?'a = nat] by simp
  then have "unat w div 256 < 256" by simp
  then show ?thesis by (simp add: le16_def unat_of_nat)
qed

lemma readUShort_at: "bytes_at buf off (le16 w) \<Longrightarrow> readUShort buf off = Inr (unat w, off + 2)"
  by (simp add: bytes_at_def readUShort_total le_nat_le16)

lemma readShort_at: "bytes_at buf off (le16 w) \<Longrightarrow> readShort buf off = Inr (sint w, off + 2)"
  by (simp add: bytes_at_def readShort_total le_nat_le16)

lemma readUInt8_at: "bytes_at buf off [b] \<Longrightarrow> readUInt8 buf off = Inr (unat b, off + 1)"
  by (simp add: bytes_at_def readUInt8_total)

lemma readBytes_at:
  "bytes_at buf off data \<Longrightarrow>
   readBytes buf off (length data) =
     Inr (if data \<noteq> [] then (\<lparr>abuf = buf, aoff = off, alen = length data\<rparr>, off + length data)
          else (u8_empty, off))"
  by (cases data) (auto simp: bytes_at_def readBytes_total min_def)

lemma u8_get_at:
  "bytes_at buf off data \<Longrightarrow> i < length data \<Longrightarrow>
   u8_get \<lparr>abuf = buf, aoff = off, alen = n\<rparr> i = data ! i"
proof -
  assume a: "bytes_at buf off data" and i: "i < length data"
  from a have e: "take (length data) (drop off buf) = data" and l: "off + length data \<le> length buf"
    by (simp_all add: bytes_at_def)
  have "data ! i = take (length data) (drop off buf) ! i" by (simp only: e)
  also have "\<dots> = buf ! (off + i)" using l i by simp
  finally show ?thesis by (simp add: u8_get_def)
qed

lemma bytes_at_Cons:
  "bytes_at buf off (x # xs) = (bytes_at buf off [x] \<and> bytes_at buf (off + 1) xs)"
  using bytes_at_append [of buf off "[x]" xs] by simp

lemma readColor_at:
  assumes "bytes_at buf off [b, g, r, a]"
  shows "bindE (readUInt8 buf off) (\<lambda>(b, off).
         bindE (readUInt8 buf off) (\<lambda>(g, off).
         bindE (readUInt8 buf off) (\<lambda>(r, off).
         bindE (readUInt8 buf off) (\<lambda>(a, off).
           Inr ([real r / 255, real g / 255, real b / 255, real a / 255], off))))) =
         Inr ([real (unat r) / 255, real (unat g) / 255, real (unat b) / 255, real (unat a) / 255],
              off + 4)"
proof -
  define o1 where "o1 = off + 1"
  define o2 where "o2 = o1 + 1"
  define o3 where "o3 = o2 + 1"
  from assms have "bytes_at buf off [b]" "bytes_at buf o1 [g]" "bytes_at buf o2 [r]"
    "bytes_at buf o3 [a]"
    unfolding o1_def o2_def o3_def
    by (simp_all only: bytes_at_Cons [of _ _ _ "_ # _"] simp_thms)
  then have "readUInt8 buf off = Inr (unat b, o1)" "readUInt8 buf o1 = Inr (unat g, o2)"
    "readUInt8 buf o2 = Inr (unat r, o3)" "readUInt8 buf o3 = Inr (unat a, o3 + 1)"
    unfolding o1_def o2_def o3_def by (simp_all only: readUInt8_at)
  moreover have "o3 + 1 = off + 4" by (simp add: o1_def o2_def o3_def)
  ultimately show ?thesis by (simp only: bindE_Inr case_prod_conv)
qed

lemma readUV_at:
  assumes "bytes_at buf off (le16 tu @ le16 tv)"
  shows "bindE (readShort buf off) (\<lambda>(texU, off).
         bindE (readShort buf off) (\<lambda>(texV, off).
           let u = (if isUVH st then real_of_int texU * 0.000015258789
                    else if \<bar>texU\<bar> < 0xF000 then real_of_int texU / real (uvSize st)
                    else real_of_int texU * 0.00000000023283064);
               v = (if isUVH st then real_of_int texV * 0.000015258789
                    else if \<bar>texV\<bar> < 0xF000 then real_of_int texV / real (uvSize st)
                    else real_of_int texV * 0.00000000023283064);
               u = (if uMirror st \<and> \<bar>u\<bar> > 1.0 then u / 2.0 else u);
               v = (if vMirror st \<and> \<bar>v\<bar> > 1.0 then v / 2.0 else v)
           in Inr ((u, v), off))) =
         Inr ((spec_uv (isUVH st) (uvSize st) (uMirror st) (sint tu),
               spec_uv (isUVH st) (uvSize st) (vMirror st) (sint tv)), off + 4)"
proof -
  define o1 where "o1 = off + 2"
  from assms have "bytes_at buf off (le16 tu)" "bytes_at buf o1 (le16 tv)"
    unfolding o1_def by (simp_all only: bytes_at_append length_le16 simp_thms)
  then have "readShort buf off = Inr (sint tu, o1)" "readShort buf o1 = Inr (sint tv, o1 + 2)"
    unfolding o1_def by (simp_all only: readShort_at)
  moreover have "o1 + 2 = off + 4" by (simp add: o1_def)
  ultimately show ?thesis
    by (simp only: bindE_Inr case_prod_conv) (simp add: spec_uv_def Let_def)
qed

lemma readStripVertex_at:
  assumes "bytes_at buf off (enc_entry hasUV hasColor e)"
  shows "readStripVertex buf vertexBase nbVertex hasUV hasColor st off =
           Inr (spec_entry vertexBase nbVertex st hasUV hasColor e,
                off + length (enc_entry hasUV hasColor e))"
proof -
  define o1 where "o1 = off + 2"
  define uvb where "uvb = (if hasUV then le16 (re_texU e) @ le16 (re_texV e) else [])"
  define cb where "cb = (if hasColor then [re_blue e, re_green e, re_red e, re_alpha e] else [])"
  define o2 where "o2 = o1 + length uvb"
  from assms have p: "bytes_at buf off (le16 (re_idx e))" "bytes_at buf o1 uvb" "bytes_at buf o2 cb"
    unfolding enc_entry_def o1_def o2_def uvb_def cb_def
    by (simp_all only: bytes_at_append length_le16 simp_thms)
  have i: "readShort buf off = Inr (sint (re_idx e), o1)"
    unfolding o1_def by (rule readShort_at [OF p(1)])
  have len: "off + length (enc_entry hasUV hasColor e) = o2 + length cb"
    by (simp add: enc_entry_def o1_def o2_def uvb_def cb_def)
  have uv: "(if hasUV then
               bindE (readShort buf o1) (\<lambda>(texU, off).
               bindE (readShort buf off) (\<lambda>(texV, off).
                 let u = (if isUVH st then real_of_int texU * 0.000015258789
                          else if \<bar>texU\<bar> < 0xF000 then real_of_int texU / real (uvSize st)
                          else real_of_int texU * 0.00000000023283064);
                     v = (if isUVH st then real_of_int texV * 0.000015258789
                          else if \<bar>texV\<bar> < 0xF000 then real_of_int texV / real (uvSize st)
                          else real_of_int texV * 0.00000000023283064);
                     u = (if uMirror st \<and> \<bar>u\<bar> > 1.0 then u / 2.0 else u);
                     v = (if vMirror st \<and> \<bar>v\<bar> > 1.0 then v / 2.0 else v)
                 in Inr ((u, v), off)))
             else Inr ((0.0, 0.0), o1)) =
            Inr ((sv_u (spec_entry vertexBase nbVertex st hasUV hasColor e),
                  sv_v (spec_entry vertexBase nbVertex st hasUV hasColor e)), o2)"
  proof (cases hasUV)
    case True
    with p(2) have "bytes_at buf o1 (le16 (re_texU e) @ le16 (re_texV e))" by (simp add: uvb_def)
    from readUV_at [OF this, of st] show ?thesis
      using True by (simp add: spec_entry_def o2_def uvb_def)
  next
    case False
    then show ?thesis by (simp add: spec_entry_def o2_def uvb_def)
  qed
  have col: "(if hasColor then
                bindE (readUInt8 buf o2) (\<lambda>(b, off).
                bindE (readUInt8 buf off) (\<lambda>(g, off).
                bindE (readUInt8 buf off) (\<lambda>(r, off).
                bindE (readUInt8 buf off) (\<lambda>(a, off).
                  Inr ([real r / 255, real g / 255, real b / 255, real a / 255], off)))))
              else Inr ([1, 1, 1, 1], o2)) =
             Inr (sv_color (spec_entry vertexBase nbVertex st hasUV hasColor e), o2 + length cb)"
  proof (cases hasColor)
    case True
    with p(3) have "bytes_at buf o2 [re_blue e, re_green e, re_red e, re_alpha e]"
      by (simp add: cb_def)
    from readColor_at [OF this] show ?thesis
      using True by (simp add: spec_entry_def cb_def)
  next
    case False
    then show ?thesis by (simp add: spec_entry_def cb_def)
  qed
  have "readStripVertex buf vertexBase nbVertex hasUV hasColor st off =
        Inr (\<lparr>sv_idx = (if sint (re_idx e) < 0 then int vertexBase + int nbVertex + sint (re_idx e)
                        else int vertexBase + sint (re_idx e)),
              sv_u = sv_u (spec_entry vertexBase nbVertex st hasUV hasColor e),
              sv_v = sv_v (spec_entry vertexBase nbVertex st hasUV hasColor e),
              sv_color = sv_color (spec_entry vertexBase nbVertex st hasUV hasColor e)\<rparr>,
             o2 + length cb)"
    unfolding readStripVertex_def
    by (simp only: i bindE_Inr case_prod_conv uv col) (simp only: Let_def)
  also have "\<dots> = Inr (spec_entry vertexBase nbVertex st hasUV hasColor e,
                       off + length (enc_entry hasUV hasColor e))"
    unfolding len by (simp add: spec_entry_def spec_index_def)
  finally show ?thesis .
qed

lemma readStrip_loop_at:
  "bytes_at buf off (concat (map (enc_entry hasUV hasColor) es)) \<Longrightarrow>
   absStripLen = k + length es \<Longrightarrow>
   readStrip_loop buf vertexBase nbVertex hasUV hasColor st absStripLen k off strip =
     Inr (strip @ map (spec_entry vertexBase nbVertex st hasUV hasColor) es,
          off + length (concat (map (enc_entry hasUV hasColor) es)))"
proof (induction es arbitrary: k off strip)
  case Nil
  then show ?case by (subst readStrip_loop.simps) simp
next
  case (Cons e es)
  from Cons.prems(1) have h: "bytes_at buf off (enc_entry hasUV hasColor e)"
    and t: "bytes_at buf (off + length (enc_entry hasUV hasColor e))
              (concat (map (enc_entry hasUV hasColor) es))"
    by (simp_all add: bytes_at_append)
  from Cons.prems(2) have k: "k < absStripLen" "absStripLen = (k + 1) + length es" by simp_all
  have "readStrip_loop buf vertexBase nbVertex hasUV hasColor st absStripLen k off strip =
        readStrip_loop buf vertexBase nbVertex hasUV hasColor st absStripLen (k + 1)
          (off + length (enc_entry hasUV hasColor e))
          (strip @ [spec_entry vertexBase nbVertex st hasUV hasColor e])"
    by (subst readStrip_loop.simps)
       (simp only: k(1) if_True readStripVertex_at [OF h] bindE_Inr case_prod_conv)
  also note Cons.IH [OF t k(2)]
  finally show ?case by (simp add: add.assoc)
qed

lemma readStrips_loop_at:
  "bytes_at buf off (concat (map (enc_strip hasUV hasColor) ss)) \<Longrightarrow>
   list_all (\<lambda>s. length (snd s) = nat \<bar>sint (fst s)\<bar>) ss \<Longrightarrow>
   nbStrips = i + length ss \<Longrightarrow>
   readStrips_loop buf vertexBase nbVertex hasUV hasColor st nbStrips i off strips =
     Inr (strips @ map (\<lambda>s. map (spec_entry vertexBase nbVertex st hasUV hasColor) (snd s)) ss,
          off + length (concat (map (enc_strip hasUV hasColor) ss)))"
proof (induction ss arbitrary: i off strips)
  case Nil
  then show ?case by (subst readStrips_loop.simps) simp
next
  case (Cons s ss)
  define o1 where "o1 = off + 2"
  define o2 where "o2 = o1 + length (concat (map (enc_entry hasUV hasColor) (snd s)))"
  from Cons.prems(2) have len: "nat \<bar>sint (fst s)\<bar> = 0 + length (snd s)"
    and wf: "list_all (\<lambda>s. length (snd s) = nat \<bar>sint (fst s)\<bar>) ss"
    by simp_all
  have el: "length (enc_strip hasUV hasColor s) =
             2 + length (concat (map (enc_entry hasUV hasColor) (snd s)))"
    by (simp add: enc_strip_def)
  from Cons.prems(1) have hd: "bytes_at buf off (enc_strip hasUV hasColor s)"
    and t: "bytes_at buf o2 (concat (map (enc_strip hasUV hasColor) ss))"
    unfolding o1_def o2_def
    by (simp_all only: list.map concat.simps bytes_at_append el add.assoc)
  from hd have l: "bytes_at buf off (le16 (fst s))"
    and b: "bytes_at buf o1 (concat (map (enc_entry hasUV hasColor) (snd s)))"
    unfolding o1_def enc_strip_def
    by (simp_all only: bytes_at_append length_le16)
  from Cons.prems(3) have k: "i < nbStrips" "nbStrips = (i + 1) + length ss" by simp_all
  have r: "readShort buf off = Inr (sint (fst s), o1)"
    unfolding o1_def by (rule readShort_at [OF l])
  have "readStrips_loop buf vertexBase nbVertex hasUV hasColor st nbStrips i off strips =
        readStrips_loop buf vertexBase nbVertex hasUV hasColor st nbStrips (i + 1) o2
          (strips @ [map (spec_entry vertexBase nbVertex st hasUV hasColor) (snd s)])"
    unfolding o2_def
    by (subst readStrips_loop.simps)
       (simp only: k(1) if_True r bindE_Inr case_prod_conv Let_def
          readStrip_loop_at [OF b len] append_Nil)
  also note Cons.IH [OF t wf k(2)]
  finally show ?case by (simp add: o1_def o2_def enc_strip_def add.assoc)
qed

lemma length_enc_command: "2 \<le> length (enc_command c)"
  by (cases c) simp_all

lemma unat_of_nat_16: "n < 65536 \<Longrightarrow> unat (of_nat n :: 16 word) = n"
  by (simp add: unat_of_nat)

lemma skip_in: "off + n \<le> length buf \<Longrightarrow> skip buf off (int n) = off + n"
  by (simp add: skip_def seek_def)

lemma readPolygons_loop_command:
  assumes at: "bytes_at buf off (enc_command c @ tail)" and ne: "tail \<noteq> []"
    and wf: "wf_command c" and it: "iterations < 10000"
  shows "readPolygons_loop buf vertexBase nbVertex iterations st off =
         readPolygons_loop buf vertexBase nbVertex (iterations + 1)
           (spec_command vertexBase nbVertex c st) (off + length (enc_command c))"
proof -
  from at have c: "bytes_at buf off (enc_command c)"
    and tl: "bytes_at buf (off + length (enc_command c)) tail"
    by (simp_all only: bytes_at_append)
  from tl ne have "off + length (enc_command c) < length buf"
    by (cases tail) (simp_all add: bytes_at_def)
  with length_enc_command [of c] it
  have g: "int off < int (length buf) - 2 \<and> iterations < 10000" by simp
  define o1 where "o1 = off + 2"
  show ?thesis
  proof (cases c)
    case (CmdNull w)
    from c CmdNull have t: "readUShort buf off = Inr (unat w, o1)"
      unfolding o1_def by (simp add: readUShort_at)
    from wf CmdNull have f: "unat w \<noteq> 0x8000" "unat w = 0 \<or> unat w = 0xFFFF" by auto
    have "readPolygons_loop buf vertexBase nbVertex iterations st off =
          readPolygons_loop buf vertexBase nbVertex (iterations + 1) st o1"
      unfolding readPolygons_loop_step [OF g t] by (simp only: f simp_thms if_True if_False)
    moreover have "off + length (enc_command c) = o1" by (simp add: CmdNull o1_def)
    ultimately show ?thesis by (simp only: CmdNull spec_command.simps)
  next
    case (CmdAttr t data)
    define o2 where "o2 = o1 + 2"
    from c CmdAttr have t: "readUShort buf off = Inr (unat t, o1)"
      and s0: "bytes_at buf o1 (le16 (of_nat (length data)))"
      and d: "bytes_at buf o2 data"
      unfolding o1_def o2_def
      by (simp_all only: enc_command.simps bytes_at_append length_le16 readUShort_at)
    from wf CmdAttr have f: "unat t \<noteq> 0x8000" "\<not> (unat t = 0 \<or> unat t = 0xFFFF)"
      "2 \<le> unat t \<and> unat t \<le> 7" and dl: "length data < 65536" by auto
    have s: "readUShort buf o1 = Inr (length data, o2)"
      using readUShort_at [OF s0] unat_of_nat_16 [OF dl] by (simp only: o2_def)
    note b = readBytes_at [OF d]
    have "readPolygons_loop buf vertexBase nbVertex iterations st off =
          readPolygons_loop buf vertexBase nbVertex (iterations + 1)
            (spec_command vertexBase nbVertex (CmdAttr t data) st) (o2 + length data)"
    proof (cases "data = []")
      case True
      from s True have s': "readUShort buf o1 = Inr (0, o2)" by simp
      from b True have b': "readBytes buf o2 0 = Inr (u8_empty, o2)" by simp
      show ?thesis
        unfolding readPolygons_loop_step [OF g t]
        by (simp only: f simp_thms if_True if_False s' b' bindE_Inr case_prod_conv)
           (simp add: u8_empty_def Let_def True)
    next
      case False
      have g0: "1 \<le> length data \<Longrightarrow>
                u8_get \<lparr>abuf = buf, aoff = o2, alen = length data\<rparr> 0 = data ! 0"
        by (rule u8_get_at [OF d]) (cases data, simp_all)
      have g10: "11 \<le> length data \<Longrightarrow>
                u8_get \<lparr>abuf = buf, aoff = o2, alen = length data\<rparr> 10 = data ! 10"
        by (rule u8_get_at [OF d]) simp
      show ?thesis
        unfolding readPolygons_loop_step [OF g t]
        by (simp only: f simp_thms if_True if_False s b bindE_Inr case_prod_conv False)
           (simp add: Let_def g0 g10 False)
    qed
    moreover have "off + length (enc_command c) = o2 + length data" by (simp add: CmdAttr o2_def o1_def)
    ultimately show ?thesis by (simp only: CmdAttr spec_command.simps)
  next
    case (CmdTexture n)
    from c CmdTexture have t: "readUShort buf off = Inr (unat (9 :: 16 word), o1)"
      and v: "readUShort buf o1 = Inr (unat n, o1 + 2)"
      unfolding o1_def
      by (simp_all only: enc_command.simps bytes_at_append length_le16 readUShort_at)
    have u: "unat (9 :: 16 word) = 9" by simp
    have "readPolygons_loop buf vertexBase nbVertex iterations st off =
          readPolygons_loop buf vertexBase nbVertex (iterations + 1)
            (st\<lparr>currentTexIdx := unat n\<rparr>) (o1 + 2)"
      unfolding readPolygons_loop_step [OF g t] u by (simp add: v)
    moreover have "off + length (enc_command c) = o1 + 2" by (simp add: CmdTexture o1_def)
    ultimately show ?thesis by (simp only: CmdTexture spec_command.simps)
  next
    case (CmdUvSize n)
    from c CmdUvSize have t: "readUShort buf off = Inr (unat (0xB :: 16 word), o1)"
      and v: "readUShort buf o1 = Inr (unat n, o1 + 2)"
      unfolding o1_def
      by (simp_all only: enc_command.simps bytes_at_append length_le16 readUShort_at)
    have u: "unat (0xB :: 16 word) = 11" by simp
    have "readPolygons_loop buf vertexBase nbVertex iterations st off =
          readPolygons_loop buf vertexBase nbVertex (iterations + 1)
            (if unat n \<noteq> 0 then st\<lparr>uvSize := unat n\<rparr> else st) (o1 + 2)"
      unfolding readPolygons_loop_step [OF g t] u by (simp add: v)
    moreover have "off + length (enc_command c) = o1 + 2" by (simp add: CmdUvSize o1_def)
    ultimately show ?thesis by (simp only: CmdUvSize spec_command.simps)
  next
    case (CmdSkip2 t bs)
    from c CmdSkip2 have t: "readUShort buf off = Inr (unat t, o1)"
      and d: "bytes_at buf o1 bs"
      unfolding o1_def
      by (simp_all only: enc_command.simps bytes_at_append length_le16 readUShort_at)
    from wf CmdSkip2 have f: "unat t \<noteq> 0x8000" "\<not> (unat t = 0 \<or> unat t = 0xFFFF)"
      "\<not> (2 \<le> unat t \<and> unat t \<le> 7)" "unat t \<noteq> 9" "unat t \<noteq> 11" "unat t = 8 \<or> unat t = 10"
      and bl: "length bs = 2" by auto
    from d bl have "o1 + 2 \<le> length buf" by (simp add: bytes_at_def)
    from skip_in [OF this] have sk: "skip buf o1 2 = o1 + 2" by simp
    have "readPolygons_loop buf vertexBase nbVertex iterations st off =
          readPolygons_loop buf vertexBase nbVertex (iterations + 1) st (o1 + 2)"
      unfolding readPolygons_loop_step [OF g t]
      by (simp only: f simp_thms if_True if_False sk)
    moreover have "off + length (enc_command c) = o1 + 2" by (simp add: CmdSkip2 bl o1_def)
    ultimately show ?thesis by (simp only: CmdSkip2 spec_command.simps)
  next
    case (CmdSkip10 t bs)
    from c CmdSkip10 have t: "readUShort buf off = Inr (unat t, o1)"
      and d: "bytes_at buf o1 bs"
      unfolding o1_def
      by (simp_all only: enc_command.simps bytes_at_append length_le16 readUShort_at)
    from wf CmdSkip10 have f: "unat t \<noteq> 0x8000" "\<not> (unat t = 0 \<or> unat t = 0xFFFF)"
      "\<not> (2 \<le> unat t \<and> unat t \<le> 7)" "unat t \<noteq> 9" "unat t \<noteq> 11"
      "\<not> (unat t = 8 \<or> unat t = 10)" "unat t = 14 \<or> unat t = 15"
      and bl: "length bs = 10" by auto
    from d bl have "o1 + 10 \<le> length buf" by (simp add: bytes_at_def)
    from skip_in [OF this] have sk: "skip buf o1 10 = o1 + 10" by simp
    have "readPolygons_loop buf vertexBase nbVertex iterations st off =
          readPolygons_loop buf vertexBase nbVertex (iterations + 1) st (o1 + 10)"
      unfolding readPolygons_loop_step [OF g t]
      by (simp only: f simp_thms if_True if_False sk)
    moreover have "off + length (enc_command c) = o1 + 10" by (simp add: CmdSkip10 bl o1_def)
    ultimately show ?thesis by (simp only: CmdSkip10 spec_command.simps)
  next
    case (CmdStrips t u strips)
    define o2 where "o2 = o1 + 2"
    define o3 where "o3 = o2 + 2"
    let ?enc = "concat (map (enc_strip (stream_hasUV t) (stream_hasColor t)) strips)"
    from c CmdStrips have t: "readUShort buf off = Inr (unat t, o1)"
      and un: "readUShort buf o1 = Inr (unat u, o2)"
      and n0: "bytes_at buf o2 (le16 (of_nat (length strips)))"
      and d: "bytes_at buf o3 ?enc"
      unfolding o1_def o2_def o3_def
      by (simp_all only: enc_command.simps bytes_at_append length_le16 readUShort_at)
    from wf CmdStrips have f: "unat t \<noteq> 0x8000" "\<not> (unat t = 0 \<or> unat t = 0xFFFF)"
      "\<not> (2 \<le> unat t \<and> unat t \<le> 7)" "unat t \<noteq> 9" "unat t \<noteq> 11"
      "\<not> (unat t = 8 \<or> unat t = 10)" "\<not> (unat t = 14 \<or> unat t = 15)"
      "16 \<le> unat t \<and> unat t \<le> 31"
      and sl: "length strips < 65536"
      and sw: "list_all (\<lambda>s. length (snd s) = nat \<bar>sint (fst s)\<bar>) strips" by auto
    have n: "readUShort buf o2 = Inr (length strips, o3)"
      using readUShort_at [OF n0] unat_of_nat_16 [OF sl] by (simp only: o3_def)
    have l: "length strips = 0 + length strips" by simp
    note ss = readStrips_loop_at [OF d sw l, of vertexBase nbVertex st "[]"]
    have "readPolygons_loop buf vertexBase nbVertex iterations st off =
          readPolygons_loop buf vertexBase nbVertex (iterations + 1)
            (spec_command vertexBase nbVertex (CmdStrips t u strips) st) (o3 + length ?enc)"
      unfolding readPolygons_loop_step [OF g t]
      by (simp only: f simp_thms if_True if_False un n bindE_Inr case_prod_conv Let_def
            stream_hasUV_def [symmetric] stream_hasColor_def [symmetric] ss append_Nil
            spec_command.simps)
    moreover have "off + length (enc_command c) = o3 + length ?enc" by (simp add: CmdStrips o2_def o3_def o1_def)
    ultimately show ?thesis by (simp only: CmdStrips spec_command.simps)
  qed
qed

lemma readPolygons_loop_stream:
  "bytes_at buf off (enc_stream cmds @ tail) \<Longrightarrow> tail \<noteq> [] \<Longrightarrow> list_all wf_command cmds \<Longrightarrow>
   iterations + length cmds \<le> 10000 \<Longrightarrow>
   readPolygons_loop buf vertexBase nbVertex iterations st off =
   readPolygons_loop buf vertexBase nbVertex (iterations + length cmds)
     (spec_stream vertexBase nbVertex cmds st) (off + length (enc_stream cmds))"
proof (induction cmds arbitrary: iterations st off)
  case Nil
  show ?case by (simp add: enc_stream_def spec_stream_def)
next
  case (Cons c cs)
  from Cons.prems(1) have h: "bytes_at buf off (enc_command c @ enc_stream cs @ tail)"
    by (simp add: enc_stream_def)
  then have t: "bytes_at buf (off + length (enc_command c)) (enc_stream cs @ tail)"
    by (simp only: bytes_at_append)
  from Cons.prems(2) have ne: "enc_stream cs @ tail \<noteq> []" by simp
  from Cons.prems(3) have wf: "wf_command c" "list_all wf_command cs" by simp_all
  from Cons.prems(4) have it: "iterations < 10000" "(iterations + 1) + length cs \<le> 10000"
    by simp_all
  note readPolygons_loop_command [OF h ne wf(1) it(1), of vertexBase nbVertex st]
  also note Cons.IH [OF t Cons.prems(2) wf(2) it(2)]
  finally show ?case by (simp add: enc_stream_def spec_stream_def add.assoc)
qed

lemma spec_stream_idx:
  "map (\<lambda>p. map (map sv_idx) (poly_strips p)) (polygons (spec_stream base N cmds st)) =
   map (\<lambda>p. map (map sv_idx) (poly_strips p)) (polygons st) @
   map (map (\<lambda>s. map (\<lambda>e. if 0 \<le> sint (re_idx e) then int base + sint (re_idx e)
                            else int base + int N + sint (re_idx e)) (snd s)))
     (stream_strips cmds)"
proof (induction cmds arbitrary: st)
  case Nil
  show ?case by (simp add: spec_stream_def)
next
  case (Cons c cs)
  have f: "spec_stream base N (c # cs) st = spec_stream base N cs (spec_command base N c st)"
    by (simp add: spec_stream_def)
  show ?case
    unfolding f Cons.IH
    by (cases c) (simp_all add: spec_entry_def spec_index_def comp_def Let_def)
qed


lemma spec_stream_lengths:
  "map (\<lambda>p. map length (poly_strips p)) (polygons (spec_stream base N cmds st)) =
   map (\<lambda>p. map length (poly_strips p)) (polygons st) @
   map (map (\<lambda>s. length (snd s))) (stream_strips cmds)"
proof (induction cmds arbitrary: st)
  case Nil
  show ?case by (simp add: spec_stream_def)
next
  case (Cons c cs)
  have f: "spec_stream base N (c # cs) st = spec_stream base N cs (spec_command base N c st)"
    by (simp add: spec_stream_def)
  show ?case
    unfolding f Cons.IH
    by (cases c) (simp_all add: comp_def Let_def)
qed

text \<open>
  Claim C7. Let the buffer hold, from the offset at which \<open>readPolygons\<close>
  starts, the encoding of a list of well-formed commands (fewer than 10000, the
  iteration ceiling), followed by at least one more byte. Then \<open>readPolygons\<close>
  returns without error, and the first groups that it returns are the strip
  groups of these commands, in stream order, strip for strip and entry for entry:
  the entry decoded from the stored signed raw index \<open>r\<close> has the global
  index \<open>vertexBase + r\<close> when \<open>r\<close> is not negative and
  \<open>vertexBase + nbVertex + r\<close> when it is negative. The witness decodes
  the raw index \<open>-1\<close> with pool base 10 in a mesh of 5 vertices: the index
  is \<open>10 + 5 - 1\<close>.
\<close>

theorem C7_relative_vertex_index:
  assumes "buf = pre @ enc_stream cmds @ rest" and "rest \<noteq> []"
    and "list_all wf_command cmds" and "length cmds < 10000"
  shows "\<exists>ps off'. readPolygons buf (length pre) vertexBase nbVertex = Inr (ps, off') \<and>
           take (length (stream_strips cmds)) (map (\<lambda>p. map (map sv_idx) (poly_strips p)) ps) =
           map (map (\<lambda>s. map (\<lambda>e. if 0 \<le> sint (re_idx e) then int vertexBase + sint (re_idx e)
                                    else int vertexBase + int nbVertex + sint (re_idx e)) (snd s)))
             (stream_strips cmds)"
proof -
  let ?st = "\<lparr>polygons = [], currentTexIdx = 0, isUVH = False, uvSize = 1024,
              uMirror = False, vMirror = False\<rparr>"
  let ?f = "\<lambda>p. map (map sv_idx) (poly_strips p)"
  have at: "bytes_at buf (length pre) (enc_stream cmds @ rest)"
    using bytes_at_here [of pre "enc_stream cmds @ rest" "[]"] assms(1) by simp
  from assms(4) have it: "0 + length cmds \<le> 10000" by simp
  note run = readPolygons_loop_stream [OF at assms(2,3) it, of vertexBase nbVertex ?st]
  obtain more off' where r: "readPolygons buf (length pre) vertexBase nbVertex =
      Inr (polygons (spec_stream vertexBase nbVertex cmds ?st) @ more, off')"
    unfolding readPolygons_def run using readPolygons_loop_extends by blast
  have idx: "map ?f (polygons (spec_stream vertexBase nbVertex cmds ?st)) =
      map (map (\<lambda>s. map (\<lambda>e. if 0 \<le> sint (re_idx e) then int vertexBase + sint (re_idx e)
                                    else int vertexBase + int nbVertex + sint (re_idx e)) (snd s)))
        (stream_strips cmds)"
    using spec_stream_idx [of vertexBase nbVertex cmds ?st] by simp
  have "length (map ?f (polygons (spec_stream vertexBase nbVertex cmds ?st))) =
        length (stream_strips cmds)"
    unfolding idx by simp
  then have "take (length (stream_strips cmds))
          (map ?f (polygons (spec_stream vertexBase nbVertex cmds ?st) @ more)) =
        map ?f (polygons (spec_stream vertexBase nbVertex cmds ?st))"
    by simp
  with r idx show ?thesis by simp
qed

theorem C7_witness:
  "\<exists>ps off'. readPolygons [16, 0, 0, 0, 1, 0, 1, 0, 255, 255, 0, 128, 0] 0 10 5 = Inr (ps, off') \<and>
     take 1 (map (\<lambda>p. map (map sv_idx) (poly_strips p)) ps) = [[[14]]]"
proof -
  let ?cmds = "[CmdStrips 0x10 0 [(1, [plain_entry 0xFFFF])]]"
  have h: "[16, 0, 0, 0, 1, 0, 1, 0, 255, 255, 0, 128, 0] = [] @ enc_stream ?cmds @ [0, 128, 0]"
    "[0, 128, 0 :: 8 word] \<noteq> []" "list_all wf_command ?cmds" "length ?cmds < 10000"
    by (simp_all add: enc_stream_def enc_strip_def enc_entry_def stream_hasUV_def
          stream_hasColor_def le16_def plain_entry_def)
  from C7_relative_vertex_index [OF h, of 10 5] show ?thesis
    by (simp add: plain_entry_def)
qed

subsection \<open>The mesh record around the stream\<close>

lemma readFloat32_ex: "\<exists>x off1. readFloat32 buf off = Inr (x, off1)"
  by (simp add: readFloat32_total)

lemma readVertices_loop_extends:
  "\<exists>new off'. readVertices_loop buf nbVertex i off gv = Inr (gv @ new, off')"
proof (induction k \<equiv> "nbVertex - i" arbitrary: i off gv)
  case 0
  then show ?case by (subst readVertices_loop.simps) simp
next
  case (Suc k)
  then have lt: "i < nbVertex" and k: "k = nbVertex - (i + 1)" by simp_all
  show ?case
  proof (cases "canRead buf off 24")
    case False
    with lt show ?thesis by (subst readVertices_loop.simps) simp
  next
    case True
    obtain x o1 where x: "readFloat32 buf off = Inr (x, o1)" using readFloat32_ex by blast
    obtain y o2 where y: "readFloat32 buf o1 = Inr (y, o2)" using readFloat32_ex by blast
    obtain z o3 where z: "readFloat32 buf o2 = Inr (z, o3)" using readFloat32_ex by blast
    obtain nx o4 where nx: "readFloat32 buf o3 = Inr (nx, o4)" using readFloat32_ex by blast
    obtain ny o5 where ny: "readFloat32 buf o4 = Inr (ny, o5)" using readFloat32_ex by blast
    obtain nz o6 where nz: "readFloat32 buf o5 = Inr (nz, o6)" using readFloat32_ex by blast
    have eq: "readVertices_loop buf nbVertex i off gv =
              readVertices_loop buf nbVertex (i + 1) o6
                (gv @ [\<lparr>v_pos = [f32_neg x, y, z], v_norm = [f32_neg nx, ny, nz]\<rparr>])"
      by (subst readVertices_loop.simps)
         (simp only: lt True simp_thms if_True if_False x y z nx ny nz bindE_Inr case_prod_conv)
    from Suc.hyps(1) [OF k, of o6 "gv @ [\<lparr>v_pos = [f32_neg x, y, z], v_norm = [f32_neg nx, ny, nz]\<rparr>]"]
    show ?thesis unfolding eq by auto
  qed
qed

lemma readUInt32_at:
  "getUint32 buf off = Inr v \<Longrightarrow> off + 4 \<le> length buf \<Longrightarrow> readUInt32 buf off = Inr (v, off + 4)"
  by (simp add: readUInt32_total getUint32_def)

lemma readFloat32_in:
  "off + 4 \<le> length buf \<Longrightarrow> \<exists>x. readFloat32 buf off = Inr (x, off + 4)"
  by (simp add: readFloat32_total)

lemma seek_in: "n \<le> length buf \<Longrightarrow> seek buf (int n) = n"
  by (simp add: seek_def)

lemma readModel_result:
  assumes b: "moff + 32 \<le> length buf"
    and va: "getUint32 buf (moff + 4) = Inr vertexAddr"
    and nv: "getUint32 buf (moff + 8) = Inr nbVertex"
    and pa: "getUint32 buf (moff + 12) = Inr polygonAddr"
    and p0: "0 < polygonAddr" and p1: "polygonAddr < length buf"
    and ps: "readPolygons buf polygonAddr (vertexOffset ld) nbVertex = Inr (ps, po)"
  shows "\<exists>m ld'. readModel buf ld moff = Inr (m, ld', moff + 32) \<and> m_polygons m = Some ps \<and>
           vertexOffset ld' =
             vertexOffset ld + (if 0 < vertexAddr \<and> vertexAddr < length buf then nbVertex else 0) \<and>
           (\<exists>new. globalVertices ld' = globalVertices ld @ new) \<and>
           (\<not> (0 < vertexAddr \<and> vertexAddr < length buf) \<longrightarrow> ld' = ld)"
proof -
  define o1 where "o1 = moff + 4"
  define o2 where "o2 = moff + 8"
  define o3 where "o3 = moff + 12"
  define o4 where "o4 = moff + 16"
  define o5 where "o5 = moff + 20"
  define o6 where "o6 = moff + 24"
  define o7 where "o7 = moff + 28"
  define o8 where "o8 = moff + 32"
  obtain flag where r0: "readUInt32 buf moff = Inr (flag, o1)"
    using b by (simp add: readUInt32_total o1_def)
  have r1: "readUInt32 buf o1 = Inr (vertexAddr, o2)"
    using readUInt32_at [OF va] b by (simp add: o1_def o2_def)
  have r2: "readUInt32 buf o2 = Inr (nbVertex, o3)"
    using readUInt32_at [OF nv] b by (simp add: o2_def o3_def)
  have r3: "readUInt32 buf o3 = Inr (polygonAddr, o4)"
    using readUInt32_at [OF pa] b by (simp add: o3_def o4_def)
  obtain cx where r4: "readFloat32 buf o4 = Inr (cx, o5)"
    using readFloat32_in [of o4 buf] b by (auto simp: o4_def o5_def)
  obtain cy where r5: "readFloat32 buf o5 = Inr (cy, o6)"
    using readFloat32_in [of o5 buf] b by (auto simp: o5_def o6_def)
  obtain cz where r6: "readFloat32 buf o6 = Inr (cz, o7)"
    using readFloat32_in [of o6 buf] b by (auto simp: o6_def o7_def)
  obtain radius where r7: "readFloat32 buf o7 = Inr (radius, o8)"
    using readFloat32_in [of o7 buf] b by (auto simp: o7_def o8_def)
  have s8: "seek buf (int o8) = o8" using b by (intro seek_in) (simp add: o8_def)
  have sp: "seek buf (int polygonAddr) = polygonAddr" using p1 by (intro seek_in) simp
  define model where "model = \<lparr>m_flag = flag, m_vertexAddr = vertexAddr, m_nbVertex = nbVertex,
                     m_polygonAddr = polygonAddr, m_center = (cx, cy, cz), m_radius = radius,
                     m_vertexBase = vertexOffset ld, m_polygons = None\<rparr>"
  have m: "m_vertexAddr model = vertexAddr" "m_nbVertex model = nbVertex"
    "m_polygonAddr model = polygonAddr" "m_vertexBase model = vertexOffset ld"
    by (simp_all add: model_def)
  define vphase where "vphase =
          (if m_vertexAddr model \<noteq> 0 \<and> m_vertexAddr model > 0
                \<and> m_vertexAddr model < length buf then
             (let saved = tell o8
              in bindE (readVertices_loop buf (m_nbVertex model) 0
                          (seek buf (int (m_vertexAddr model))) (globalVertices ld))
                   (\<lambda>(gv, off').
                      Inr (ld\<lparr>globalVertices := gv,
                              vertexOffset := vertexOffset ld + m_nbVertex model\<rparr>,
                           seek buf (int saved))))
           else Inr (ld, o8))"
  have unf: "readModel buf ld moff =
        bindE vphase
          (\<lambda>(ld, off).
             bindE
               (if m_polygonAddr model \<noteq> 0 \<and> m_polygonAddr model > 0
                     \<and> m_polygonAddr model < length buf then
                  (let saved = tell off
                   in bindE (readPolygons buf (seek buf (int (m_polygonAddr model)))
                               (m_vertexBase model) (m_nbVertex model))
                        (\<lambda>(ps, off').
                           Inr (model\<lparr>m_polygons := Some ps\<rparr>, seek buf (int saved))))
                else Inr (model, off))
               (\<lambda>(model, off). Inr (model, ld, off)))"
    unfolding readModel_def vphase_def model_def
    by (simp only: Let_def r0 r1 r2 r3 r4 r5 r6 r7 bindE_Inr case_prod_conv)
  have "\<exists>ld'. vphase = Inr (ld', o8) \<and>
          vertexOffset ld' =
             vertexOffset ld + (if 0 < vertexAddr \<and> vertexAddr < length buf then nbVertex else 0) \<and>
          (\<exists>new. globalVertices ld' = globalVertices ld @ new) \<and>
          (\<not> (0 < vertexAddr \<and> vertexAddr < length buf) \<longrightarrow> ld' = ld)"
  proof (cases "0 < vertexAddr \<and> vertexAddr < length buf")
    case True
    obtain new vo where g: "readVertices_loop buf nbVertex 0 (seek buf (int vertexAddr))
        (globalVertices ld) = Inr (globalVertices ld @ new, vo)"
      using readVertices_loop_extends by blast
    have "vphase = Inr (ld\<lparr>globalVertices := globalVertices ld @ new,
                           vertexOffset := vertexOffset ld + nbVertex\<rparr>, o8)"
      unfolding vphase_def m using True by (simp add: Let_def tell_def g s8)
    with True show ?thesis by simp
  next
    case False
    then have "vphase = Inr (ld, o8)" unfolding vphase_def m by auto
    with False show ?thesis by auto
  qed
  then obtain ld' where v: "vphase = Inr (ld', o8)"
    and l1: "vertexOffset ld' =
             vertexOffset ld + (if 0 < vertexAddr \<and> vertexAddr < length buf then nbVertex else 0)"
    and l2: "\<exists>new. globalVertices ld' = globalVertices ld @ new"
    and l3: "\<not> (0 < vertexAddr \<and> vertexAddr < length buf) \<longrightarrow> ld' = ld"
    by blast
  have "readModel buf ld moff = Inr (model\<lparr>m_polygons := Some ps\<rparr>, ld', o8)"
    unfolding unf v m using p0 p1 by (simp add: Let_def tell_def sp ps s8)
  with l1 l2 l3 show ?thesis unfolding o8_def by auto
qed

text \<open>
  Claim C8. Let the stream consist of well-formed commands (fewer than 10000),
  then a 16-bit opcode outside the recognised set (the end marker \<open>0x8000\<close>,
  the null markers \<open>0x0000\<close> and \<open>0xFFFF\<close>, \<open>0x0002\<close> to
  \<open>0x000B\<close>, \<open>0x000E\<close>, \<open>0x000F\<close> and \<open>0x10\<close> to
  \<open>0x1F\<close>), then at least one more byte. Then \<open>readPolygons\<close>, run
  from the start of the stream, stops at that opcode: it returns without error
  exactly the strip groups that the commands before the opcode denote (one group
  for each strip group command, each with all its strips at full length), and
  leaves the reader just behind the opcode, whatever follows it. If moreover the
  stream is the polygon stream of a mesh record of the buffer, \<open>readModel\<close>
  returns without error as well: the mesh has these groups, the reader is back
  behind the 32 bytes of the mesh record, the vertex counter of the loader has
  advanced by the vertex count of the mesh if the mesh has a vertex block and
  not at all otherwise, and the vertex pool has only been extended (the loader
  is unchanged if the mesh has no vertex block).
\<close>

theorem C8_unknown_opcode_stops:
  assumes "buf = pre @ enc_stream cmds @ le16 unk @ rest" and "rest \<noteq> []"
    and "list_all wf_command cmds" and "length cmds < 10000"
    and "unat unk \<noteq> 0x8000" and "unat unk \<noteq> 0x0000" and "unat unk \<noteq> 0xFFFF"
    and "\<not> (0x0002 \<le> unat unk \<and> unat unk \<le> 0x000B)"
    and "unat unk \<noteq> 0x000E" and "unat unk \<noteq> 0x000F"
    and "\<not> (0x10 \<le> unat unk \<and> unat unk \<le> 0x1F)"
  shows "readPolygons buf (length pre) vertexBase nbVertex =
           Inr (spec_polygons vertexBase nbVertex cmds, length pre + length (enc_stream cmds) + 2) \<and>
         map (\<lambda>p. map length (poly_strips p)) (spec_polygons vertexBase nbVertex cmds) =
           map (map (\<lambda>s. length (snd s))) (stream_strips cmds) \<and>
         (moff + 32 \<le> length buf \<and> getUint32 buf (moff + 4) = Inr vertexAddr \<and>
          getUint32 buf (moff + 8) = Inr nbVertex \<and> getUint32 buf (moff + 12) = Inr (length pre) \<and>
          pre \<noteq> [] \<longrightarrow>
          (\<exists>m ld'. readModel buf ld moff = Inr (m, ld', moff + 32) \<and>
             m_polygons m = Some (spec_polygons (vertexOffset ld) nbVertex cmds) \<and>
             vertexOffset ld' =
               vertexOffset ld + (if 0 < vertexAddr \<and> vertexAddr < length buf then nbVertex else 0) \<and>
             (\<exists>new. globalVertices ld' = globalVertices ld @ new) \<and>
             (\<not> (0 < vertexAddr \<and> vertexAddr < length buf) \<longrightarrow> ld' = ld)))"
proof -
  have at: "bytes_at buf (length pre) (enc_stream cmds @ le16 unk @ rest)"
    using bytes_at_here [of pre "enc_stream cmds @ le16 unk @ rest" "[]"] assms(1) by simp
  have ne: "le16 unk @ rest \<noteq> []" by (simp add: le16_def)
  from assms(4) have it: "0 + length cmds \<le> 10000" by simp
  define off1 where "off1 = length pre + length (enc_stream cmds)"
  from at have u: "bytes_at buf off1 (le16 unk)" and r: "bytes_at buf (off1 + 2) rest"
    unfolding off1_def by (simp_all only: bytes_at_append length_le16)
  from r assms(2) have "off1 + 2 < length buf" by (cases rest) (simp_all add: bytes_at_def)
  then have g: "int off1 < int (length buf) - 2" by simp
  have A: "readPolygons buf (length pre) base nbVertex =
           Inr (spec_polygons base nbVertex cmds, length pre + length (enc_stream cmds) + 2)"
    for base
    unfolding readPolygons_def spec_polygons_def stream_start_def
      readPolygons_loop_stream [OF at ne assms(3) it] off1_def [symmetric]
    using readPolygons_loop_unknown [OF g _ readUShort_at [OF u] assms(5-11)] assms(4)
    by simp
  have B: "\<exists>m ld'. readModel buf ld moff = Inr (m, ld', moff + 32) \<and>
             m_polygons m = Some (spec_polygons (vertexOffset ld) nbVertex cmds) \<and>
             vertexOffset ld' =
               vertexOffset ld + (if 0 < vertexAddr \<and> vertexAddr < length buf then nbVertex else 0) \<and>
             (\<exists>new. globalVertices ld' = globalVertices ld @ new) \<and>
             (\<not> (0 < vertexAddr \<and> vertexAddr < length buf) \<longrightarrow> ld' = ld)"
    if h: "moff + 32 \<le> length buf" "getUint32 buf (moff + 4) = Inr vertexAddr"
      "getUint32 buf (moff + 8) = Inr nbVertex" "getUint32 buf (moff + 12) = Inr (length pre)"
      "pre \<noteq> []"
  proof -
    from h(5) have p0: "0 < length pre" by simp
    from assms(1,2) have p1: "length pre < length buf" by simp
    from readModel_result [OF h(1-4) p0 p1 A [of "vertexOffset ld"]] show ?thesis .
  qed
  have L: "map (\<lambda>p. map length (poly_strips p)) (spec_polygons vertexBase nbVertex cmds) =
           map (map (\<lambda>s. length (snd s))) (stream_strips cmds)"
    using spec_stream_lengths [of vertexBase nbVertex cmds stream_start]
    by (simp add: spec_polygons_def stream_start_def)
  from A [of vertexBase] L B show ?thesis by blast
qed

text \<open>
  The witness runs \<open>readPolygons\<close> from the start of the stream of one
  five-entry strip followed by the opcode \<open>0x0001\<close>, alone and as the
  polygon stream of a mesh record, and \<open>readModel\<close> on that mesh record.
\<close>

theorem C8_witness:
  "readPolygons five_entry_stream 0 0 5 = Inr ([five_entry_group], 20) \<and>
   readPolygons mesh_buffer 32 0 5 = Inr ([five_entry_group], 52) \<and>
   (\<exists>m. readModel mesh_buffer \<lparr>globalVertices = [], vertexOffset = 0\<rparr> 0 =
           Inr (m, \<lparr>globalVertices = [], vertexOffset = 0\<rparr>, 32) \<and>
         m_polygons m = Some [five_entry_group])"
proof -
  let ?cmds = "[CmdStrips 0x10 0 [(5, map plain_entry [0, 1, 2, 3, 4])]]"
  let ?hdr = "[0, 0, 0, 0, 0, 0, 0, 0, 5, 0, 0, 0, 32, 0, 0, 0,
               0, 0, 0, 0, 0, 0, 0, 0, 0, 0, 0, 0, 0, 0, 0, 0] :: bytes"
  let ?ld = "\<lparr>globalVertices = [], vertexOffset = 0\<rparr>"
  have e: "enc_stream ?cmds = [0x10, 0, 0, 0, 1, 0, 5, 0, 0, 0, 1, 0, 2, 0, 3, 0, 4, 0]"
    by (simp add: enc_stream_def enc_strip_def enc_entry_def stream_hasUV_def
          stream_hasColor_def le16_def plain_entry_def)
  have u: "le16 1 = [1, 0]" by (simp add: le16_def)
  have s: "spec_polygons 0 5 ?cmds = [five_entry_group]"
    by (simp add: spec_polygons_def spec_stream_def stream_start_def spec_entry_def
          spec_index_def stream_hasUV_def stream_hasColor_def plain_entry_def five_entry_group_def)
  have h1: "five_entry_stream = [] @ enc_stream ?cmds @ le16 1 @ [0, 0, 0]"
    and h2: "mesh_buffer = ?hdr @ enc_stream ?cmds @ le16 1 @ [0, 0, 0]"
    unfolding e u by (simp_all add: five_entry_stream_def mesh_buffer_def)
  have c: "[0, 0, 0 :: 8 word] \<noteq> []" "list_all wf_command ?cmds" "length ?cmds < 10000"
    "unat (1 :: 16 word) \<noteq> 0x8000" "unat (1 :: 16 word) \<noteq> 0x0000" "unat (1 :: 16 word) \<noteq> 0xFFFF"
    "\<not> (0x0002 \<le> unat (1 :: 16 word) \<and> unat (1 :: 16 word) \<le> 0x000B)"
    "unat (1 :: 16 word) \<noteq> 0x000E" "unat (1 :: 16 word) \<noteq> 0x000F"
    "\<not> (0x10 \<le> unat (1 :: 16 word) \<and> unat (1 :: 16 word) \<le> 0x1F)"
    by (simp_all add: plain_entry_def)
  have m: "0 + 32 \<le> length mesh_buffer \<and> getUint32 mesh_buffer (0 + 4) = Inr 0 \<and>
          getUint32 mesh_buffer (0 + 8) = Inr 5 \<and> getUint32 mesh_buffer (0 + 12) = Inr (length ?hdr) \<and>
          ?hdr \<noteq> []"
    by (simp add: mesh_buffer_def five_entry_stream_def getUint32_def)
  have len: "length ?hdr = 32" by simp
  have el: "length (enc_stream ?cmds) = 18" unfolding e by simp
  have vo: "vertexOffset ?ld = 0" by simp
  from conjunct1 [OF C8_unknown_opcode_stops [OF h1 c, of 0 5]]
  have 1: "readPolygons five_entry_stream 0 0 5 = Inr ([five_entry_group], 20)"
    unfolding s el by simp
  note t = C8_unknown_opcode_stops [OF h2 c, of 0 5 0 0 ?ld]
  from conjunct1 [OF t] have 2: "readPolygons mesh_buffer 32 0 5 = Inr ([five_entry_group], 52)"
    unfolding s el len by simp
  from conjunct2 [OF conjunct2 [OF t], THEN mp, OF m]
  have 3: "\<exists>m. readModel mesh_buffer ?ld 0 = Inr (m, ?ld, 32) \<and>
                m_polygons m = Some [five_entry_group]"
    unfolding vo s by auto
  from 1 2 3 show ?thesis by blast
qed

subsection \<open>Texture coordinates in standard mode\<close>

text \<open>
  Claim C10. In standard mode (\<open>isUVH\<close> false) the raw texture coordinates are
  signed 16-bit values, of magnitude at most 32768 and hence below \<open>0xF000\<close>:
  the fallback scale is never taken, and the coordinates of the decoded entry are
  the raw values divided by the active divisor \<open>uvSize\<close>, then mirror-adjusted.
\<close>

theorem C10_standard_uv_unscaled:
  assumes "\<not> isUVH st"
    and "readShort buf off = Inr (r, off1)"
    and "readShort buf off1 = Inr (texU, off2)"
    and "readShort buf off2 = Inr (texV, off3)"
  shows "\<bar>texU\<bar> \<le> 32768 \<and> \<bar>texV\<bar> \<le> 32768 \<and> \<bar>texU\<bar> < 0xF000 \<and> \<bar>texV\<bar> < 0xF000 \<and>
         (\<exists>e off'. readStripVertex buf vertexBase nbVertex True hasColor st off = Inr (e, off') \<and>
            sv_u e = (let u = real_of_int texU / real (uvSize st)
                      in if uMirror st \<and> \<bar>u\<bar> > 1.0 then u / 2.0 else u) \<and>
            sv_v e = (let v = real_of_int texV / real (uvSize st)
                      in if vMirror st \<and> \<bar>v\<bar> > 1.0 then v / 2.0 else v))"
proof -
  from readShort_range [OF assms(3)] readShort_range [OF assms(4)]
  have b: "\<bar>texU\<bar> \<le> 32768" "\<bar>texV\<bar> \<le> 32768" by linarith+
  then have s: "\<bar>texU\<bar> < 0xF000" "\<bar>texV\<bar> < 0xF000" by simp_all
  from readStripVertex_result [OF assms(2-4), of vertexBase nbVertex True hasColor st]
  obtain e off' where
    e: "readStripVertex buf vertexBase nbVertex True hasColor st off = Inr (e, off')"
    and uv: "True \<longrightarrow>
       sv_u e =
         (let u = (if isUVH st then real_of_int texU * 0.000015258789
                   else if \<bar>texU\<bar> < 0xF000 then real_of_int texU / real (uvSize st)
                   else real_of_int texU * 0.00000000023283064)
          in if uMirror st \<and> \<bar>u\<bar> > 1.0 then u / 2.0 else u) \<and>
       sv_v e =
         (let v = (if isUVH st then real_of_int texV * 0.000015258789
                   else if \<bar>texV\<bar> < 0xF000 then real_of_int texV / real (uvSize st)
                   else real_of_int texV * 0.00000000023283064)
          in if vMirror st \<and> \<bar>v\<bar> > 1.0 then v / 2.0 else v)"
    by blast
  have "sv_u e = (let u = real_of_int texU / real (uvSize st)
                  in if uMirror st \<and> \<bar>u\<bar> > 1.0 then u / 2.0 else u) \<and>
        sv_v e = (let v = real_of_int texV / real (uvSize st)
                  in if vMirror st \<and> \<bar>v\<bar> > 1.0 then v / 2.0 else v)"
    using uv assms(1) s by (simp only: simp_thms if_True if_False)
  with e b s show ?thesis by blast
qed

theorem C10_witness:
  "\<exists>e off'. readStripVertex [0, 0, 0x00, 0x80, 0x00, 0x02] 0 0 True False
       \<lparr>polygons = [], currentTexIdx = 0, isUVH = False, uvSize = 1024,
        uMirror = True, vMirror = True\<rparr> 0 = Inr (e, off') \<and>
     sv_u e = - 16 \<and> sv_v e = 1 / 2"
proof -
  let ?buf = "[0, 0, 0x00, 0x80, 0x00, 0x02] :: bytes"
  let ?st = "\<lparr>polygons = [], currentTexIdx = 0, isUVH = False, uvSize = 1024,
        uMirror = True, vMirror = True\<rparr>"
  have h: "\<not> isUVH ?st" "readShort ?buf 0 = Inr (0, 2)" "readShort ?buf 2 = Inr (- 32768, 4)"
    "readShort ?buf 4 = Inr (512, 6)"
    by (simp_all add: readShort_total)
  from C10_standard_uv_unscaled [OF h, of 0 0 False]
  show ?thesis by (simp add: Let_def)
qed

section \<open>The node tree\<close>

lemma returns_Inr [simp, intro!]: "returns (Inr x)"
  by (simp add: returns_def)

lemma returns_bindE [intro!]:
  "returns m \<Longrightarrow> (\<And>x. m = Inr x \<Longrightarrow> returns (f x)) \<Longrightarrow> returns (bindE m f)"
  by (auto simp: returns_def)

lemma returns_case_prod [intro!]:
  "(\<And>a b. x = (a, b) \<Longrightarrow> returns (f a b)) \<Longrightarrow> returns (case_prod f x)"
  by (cases x) simp

lemma returns_if [intro!]:
  "(c \<Longrightarrow> returns a) \<Longrightarrow> (\<not> c \<Longrightarrow> returns b) \<Longrightarrow> returns (if c then a else b)"
  by simp

lemma returns_Let [intro!]: "returns (f x) \<Longrightarrow> returns (Let x f)"
  by simp

lemma returns_reads [simp, intro!]:
  "returns (readUInt8 buf off)" "returns (readUInt16 buf off)" "returns (readInt16 buf off)"
  "returns (readUInt32 buf off)" "returns (readInt32 buf off)" "returns (readFloat32 buf off)"
  "returns (readBytes buf off len)"
  by (simp_all add: returns_def readUInt8_total readUInt16_total readInt16_total
        readUInt32_total readInt32_total readFloat32_total readBytes_total)

lemma bindE_eq_Inr: "bindE m f = Inr r \<Longrightarrow> (\<And>x. m = Inr x \<Longrightarrow> f x = Inr r \<Longrightarrow> P) \<Longrightarrow> P"
  by (cases m) simp_all

lemma returns_readNodeRecord: "returns (readNodeRecord buf off)"
  unfolding readNodeRecord_def by (intro returns_Let returns_bindE returns_case_prod returns_reads returns_Inr)

lemma readNodeRecord_addr:
  assumes "readNodeRecord buf off = Inr (node, off')"
  shows "n_addr node = off"
  using assms unfolding readNodeRecord_def Let_def
  by (auto elim!: bindE_eq_Inr)

lemma returns_readVertices_loop: "returns (readVertices_loop buf nbVertex i off gv)"
proof (induction k \<equiv> "nbVertex - i" arbitrary: i off gv)
  case 0
  then show ?case by (subst readVertices_loop.simps) simp
next
  case (Suc k)
  have IH: "returns (readVertices_loop buf nbVertex (i + 1) off' gv')" for off' gv'
    using Suc.hyps(2) by (intro Suc.hyps(1)) simp
  show ?case
    by (subst readVertices_loop.simps)
       (intro returns_if returns_bindE returns_case_prod returns_reads returns_Inr IH)
qed

lemma returns_readPolygons: "returns (readPolygons buf off vertexBase nbVertex)"
  using readPolygons_loop_extends [of buf vertexBase nbVertex 0 _ off]
  unfolding readPolygons_def returns_def by blast

lemma returns_readModel: "returns (readModel buf ld off)"
  unfolding readModel_def
  by (intro returns_Let returns_if returns_bindE returns_case_prod returns_reads returns_Inr
        returns_readVertices_loop returns_readPolygons)

lemma readNodeModel_result:
  "\<exists>node' ld' off'. readNodeModel buf ld node off = Inr (node', ld', off') \<and>
     n_addr node' = n_addr node \<and> n_child node' = n_child node \<and> n_sibling node' = n_sibling node"
proof (cases "n_modelAddr node \<noteq> 0 \<and> n_modelAddr node > 0 \<and> n_modelAddr node < length buf")
  case True
  obtain m ld' o' where "readModel buf ld (seek buf (int (n_modelAddr node))) = Inr (m, ld', o')"
    using returns_readModel [of buf ld "seek buf (int (n_modelAddr node))"]
    unfolding returns_def by (metis prod_cases3)
  with True show ?thesis by (simp add: readNodeModel_def Let_def)
next
  case False
  then have "readNodeModel buf ld node off = Inr (node, ld, off)"
    unfolding readNodeModel_def by (simp only: if_False)
  then show ?thesis by simp
qed

lemma node_step_ok_Inr [simp]: "node_step_ok nodes (Inr (off, nodes, ld))"
  by (simp add: node_step_ok_def)

lemma node_step_ok_trans:
  assumes "node_step_ok nodes (Inr (o1, nodes1, ld1))" and "node_step_ok nodes1 r"
  shows "node_step_ok nodes r"
  using assms unfolding node_step_ok_def by auto

lemma readNode_visit:
  assumes "canRead buf off 64" and "\<not> list_ex (\<lambda>n. n_addr n = off) nodes"
  obtains node0 o1 node ld1 o2 where
    "readNodeRecord buf off = Inr (node0, o1)"
    "readNodeModel buf ld node0 o1 = Inr (node, ld1, o2)"
    "n_addr node = off"
    "node_step_ok nodes (Inr (o2, nodes @ [node], ld1))"
proof -
  obtain node0 o1 where r: "readNodeRecord buf off = Inr (node0, o1)"
    using returns_readNodeRecord [of buf off] unfolding returns_def by (metis surj_pair)
  obtain node ld1 o2 where m: "readNodeModel buf ld node0 o1 = Inr (node, ld1, o2)"
    and a: "n_addr node = n_addr node0"
    using readNodeModel_result [of buf ld node0 o1] by blast
  have addr: "n_addr node = off" using a readNodeRecord_addr [OF r] by simp
  have "off \<notin> set (map n_addr nodes)" using assms(2) by (auto simp: list_ex_iff)
  then have "node_step_ok nodes (Inr (o2, nodes @ [node], ld1))"
    by (simp add: node_step_ok_def addr)
  with r m addr show ?thesis by (rule that)
qed

lemma readNode_dom_step:
  assumes "readNode_dom (buf, off, nodes, ld)"
  shows "node_step_ok nodes (readNode buf off nodes ld)"
  using assms
proof (induction buf off nodes ld rule: readNode.pinduct)
  case (1 buf off nodes ld)
  note unf = readNode.psimps [OF "1.hyps"]
  show ?case
  proof (cases "canRead buf off 64 \<and> \<not> list_ex (\<lambda>n. n_addr n = off) nodes")
    case False
    then have "readNode buf off nodes ld = Inr (off, nodes, ld)"
      unfolding unf by (auto simp: Let_def)
    then show ?thesis by simp
  next
    case True
    then have c: "\<not> \<not> canRead buf off 64" and e: "\<not> list_ex (\<lambda>n. n_addr n = off) nodes" by simp_all
    from True obtain node0 o1 node ld1 o2 where
      r: "readNodeRecord buf off = Inr (node0, o1)"
      and m: "readNodeModel buf ld node0 o1 = Inr (node, ld1, o2)"
      and ok0: "node_step_ok nodes (Inr (o2, nodes @ [node], ld1))"
      by (blast elim: readNode_visit)
    define C where "C = (if n_child node \<noteq> 0 \<and> n_child node < length buf
                    then readNode buf (seek buf (int (n_child node))) (nodes @ [node]) ld1
                    else Inr (o2, nodes @ [node], ld1))"
    have okC: "node_step_ok (nodes @ [node]) C"
    proof (cases "n_child node \<noteq> 0 \<and> n_child node < length buf")
      case True
      from "1.IH"(1) [OF c refl e r refl m refl refl refl True]
      show ?thesis unfolding C_def by (simp only: True simp_thms if_True)
    next
      case False
      show ?thesis unfolding C_def by (simp only: False simp_thms if_False node_step_ok_Inr)
    qed
    then obtain o3 nodes3 ld3 where C: "C = Inr (o3, nodes3, ld3)"
      unfolding node_step_ok_def by blast
    define S where "S = (if n_sibling node \<noteq> 0 \<and> n_sibling node < length buf
                  then readNode buf (seek buf (int (n_sibling node))) nodes3 ld3
                  else Inr (o3, nodes3, ld3))"
    have okS: "node_step_ok nodes3 S"
    proof (cases "n_sibling node \<noteq> 0 \<and> n_sibling node < length buf")
      case True
      from "1.IH"(2) [OF c refl e r refl m refl refl refl C [unfolded C_def] refl refl True]
      show ?thesis unfolding S_def by (simp only: True simp_thms if_True)
    next
      case False
      show ?thesis unfolding S_def by (simp only: False simp_thms if_False node_step_ok_Inr)
    qed
    have "readNode buf off nodes ld = S"
      unfolding unf using True r m C [unfolded C_def] by (simp add: Let_def S_def)
    moreover have "node_step_ok nodes S"
      using node_step_ok_trans [OF ok0] okC [unfolded C] okS node_step_ok_trans by blast
    ultimately show ?thesis by simp
  qed
qed

lemma unvisited_decreases:
  assumes "canRead buf off 64" and "\<not> list_ex (\<lambda>n. n_addr n = off) nodes"
    and "n_addr node = off" and "nodes' = (nodes @ [node]) @ new"
  shows "card ({a. a + 64 \<le> length buf} - n_addr ` set nodes')
       < card ({a. a + 64 \<le> length buf} - n_addr ` set nodes)"
proof -
  let ?V = "{a. a + 64 \<le> length buf}"
  have fin: "finite (?V - n_addr ` set nodes)"
    by (rule finite_subset [of _ "{..length buf}"]) auto
  have "off \<in> ?V - n_addr ` set nodes"
    using assms(1,2) by (auto simp: canRead_def list_ex_iff)
  moreover have "off \<notin> ?V - n_addr ` set nodes'"
    using assms(3,4) by auto
  moreover have "?V - n_addr ` set nodes' \<subseteq> ?V - n_addr ` set nodes"
    using assms(4) by auto
  ultimately have "?V - n_addr ` set nodes' \<subset> ?V - n_addr ` set nodes" by blast
  with fin show ?thesis by (rule psubset_card_mono)
qed

lemma readNode_dom_all: "All readNode_dom"
proof (relation "measure (\<lambda>(buf, off, nodes, ld).
          card ({a. a + 64 \<le> length buf} - n_addr ` set nodes))", goal_cases)
  case 1
  show ?case by simp
next
  case (2 buf off nodes ld x xa xb y xc xd ya xe yb xf)
  from 2 have r: "readNodeRecord buf off = Inr (xb, y)"
    and m: "readNodeModel buf ld xb y = Inr (xd, xe, yb)" by simp_all
  have "n_addr xd = off"
    using readNodeModel_result [of buf ld xb y] m readNodeRecord_addr [OF r] by auto
  moreover from 2 have "canRead buf off 64" "\<not> list_ex (\<lambda>n. n_addr n = off) nodes" by simp_all
  ultimately have "card ({a. a + 64 \<le> length buf} - n_addr ` set (nodes @ [xd]))
       < card ({a. a + 64 \<le> length buf} - n_addr ` set nodes)"
    by (intro unvisited_decreases [where new = "[]"]) simp_all
  with 2 show ?case by simp
next
  case (3 buf off nodes ld x xa xb y xc xd ya xe yb xf xg xh yc xi yd)
  from 3 have r: "readNodeRecord buf off = Inr (xb, y)"
    and m: "readNodeModel buf ld xb y = Inr (xd, xe, yb)" by simp_all
  have a: "n_addr xd = off"
    using readNodeModel_result [of buf ld xb y] m readNodeRecord_addr [OF r] by auto
  from 3 have g: "canRead buf off 64" "\<not> list_ex (\<lambda>n. n_addr n = off) nodes" by simp_all
  have "\<exists>new. xi = (nodes @ [xd]) @ new"
  proof (cases "n_child xd \<noteq> 0 \<and> n_child xd < length buf")
    case True
    with 3 have d: "readNode_dom (buf, seek buf (int (n_child xd)), nodes @ [xd], xe)"
      and e: "readNode buf (seek buf (int (n_child xd))) (nodes @ [xd]) xe = Inr (xh, xi, yd)"
      by simp_all
    from readNode_dom_step [OF d] e show ?thesis
      by (simp add: node_step_ok_def)
  next
    case False
    with 3 have "Inr (yb, nodes @ [xd], xe) = (Inr (xh, xi, yd) :: js_error + _)"
      by (simp only: if_False)
    then show ?thesis by simp
  qed
  then obtain new where "xi = (nodes @ [xd]) @ new" ..
  from unvisited_decreases [OF g a this] show ?case by simp
qed

termination readNode
  by (rule readNode_dom_all)

declare readNode.simps [simp del]

lemma readNode_step: "node_step_ok nodes (readNode buf off nodes ld)"
  using readNode_dom_all by (intro readNode_dom_step) blast

text \<open>
  Claim C6. For every buffer, every reader offset and every loader state,
  \<open>readNode\<close> started with a list of nodes of pairwise distinct offsets
  returns (the recursion terminates, also when child and sibling offsets form
  cycles or point to a node already reached, and no error is thrown), the list
  it leaves extends the list it was given, and the offsets in it are pairwise
  distinct: at most one node is recorded per byte offset. A call at an offset
  that is already in the list changes nothing. (The recursion depth that a
  JavaScript engine supports is not modelled.)
\<close>

theorem C6_node_traversal:
  assumes "distinct (map n_addr nodes)"
  shows "(\<exists>off' nodes' ld'. readNode buf off nodes ld = Inr (off', nodes', ld') \<and>
            (\<exists>new. nodes' = nodes @ new) \<and> distinct (map n_addr nodes')) \<and>
         (off \<in> set (map n_addr nodes) \<longrightarrow> readNode buf off nodes ld = Inr (off, nodes, ld))"
proof
  from readNode_step [of nodes buf off ld] assms
  show "\<exists>off' nodes' ld'. readNode buf off nodes ld = Inr (off', nodes', ld') \<and>
            (\<exists>new. nodes' = nodes @ new) \<and> distinct (map n_addr nodes')"
    unfolding node_step_ok_def by blast
next
  show "off \<in> set (map n_addr nodes) \<longrightarrow> readNode buf off nodes ld = Inr (off, nodes, ld)"
  proof
    assume "off \<in> set (map n_addr nodes)"
    then have "list_ex (\<lambda>n. n_addr n = off) nodes" by (auto simp: list_ex_iff)
    then show "readNode buf off nodes ld = Inr (off, nodes, ld)"
      by (subst readNode.simps) (simp add: Let_def)
  qed
qed

lemma cyclic_eval:
  "readNode cyclic_buffer 64 [] \<lparr>globalVertices = [], vertexOffset = 0\<rparr> =
     Inr (64,
          [\<lparr>n_addr = 64, n_flag = 1, n_modelAddr = 0, n_rot = (0, 0, 0),
            n_scl = (Float32 0, Float32 0, Float32 0), n_pos = (Float32 0, Float32 0, Float32 0),
            n_child = 64, n_sibling = 64, n_parentAddr = 0, n_unk1 = 0, n_unk2 = 0,
            n_model = None\<rparr>],
          \<lparr>globalVertices = [], vertexOffset = 0\<rparr>)"
  by (simp add: readNode.simps readNodeRecord_def readNodeModel_def
        readUInt32_total readInt32_total readFloat32_total canRead_def seek_def Let_def
        cyclic_buffer_def)

theorem C6_witness:
  "(\<exists>off' nodes' ld'.
      readNode cyclic_buffer 64 [] \<lparr>globalVertices = [], vertexOffset = 0\<rparr>
        = Inr (off', nodes', ld') \<and>
      map n_addr nodes' = [64] \<and> distinct (map n_addr nodes'))"
proof -
  have "distinct (map n_addr [])" by simp
  from C6_node_traversal [OF this, of cyclic_buffer 64 "\<lparr>globalVertices = [], vertexOffset = 0\<rparr>"]
  obtain off' nodes' ld' where
    r: "readNode cyclic_buffer 64 [] \<lparr>globalVertices = [], vertexOffset = 0\<rparr>
          = Inr (off', nodes', ld')"
    and d: "distinct (map n_addr nodes')"
    by blast
  from r have a: "map n_addr nodes' = [64]"
    unfolding cyclic_eval by auto
  show ?thesis
    by (rule exI [of _ off'], rule exI [of _ nodes'], rule exI [of _ ld']) (simp add: r d a)
qed

section \<open>The texture directory and the two resolution passes\<close>

lemma readNames_new_unbound:
  "readNames buf True nbTex cache nodeSize i texCounter nameRequests off = Inr (tc', reqs', off') \<Longrightarrow>
   \<forall>r\<in>set reqs'. r \<in> set nameRequests \<or> cache (req_index r) = None"
proof (induction buf "True" nbTex cache nodeSize i texCounter nameRequests off
       rule: readNames.induct)
  case (1 buf nbTex cache nodeSize i texCounter nameRequests off)
  show ?case
  proof (cases "8 * int i < int nodeSize - 8")
    case False
    with "1.prems" show ?thesis by (subst (asm) readNames.simps) simp
  next
    case True
    obtain id o1 where rb: "readBytes buf off 8 = Inr (id, o1)" using readBytes_ex by blast
    show ?thesis
    proof (cases "cache texCounter \<noteq> None")
      case bound: True
      show ?thesis
      proof (cases "nbTex \<le> texCounter + 1")
        case stop: True
        with "1.prems" True rb bound show ?thesis
          by (subst (asm) readNames.simps) (simp add: Let_def)
      next
        case go: False
        from "1.prems" True rb bound go
        have "readNames buf True nbTex cache nodeSize (i + 1) (texCounter + 1) nameRequests o1
              = Inr (tc', reqs', off')"
          by (subst (asm) readNames.simps) (simp add: Let_def)
        from "1.hyps"(1) [OF True rb refl _ refl go this] bound show ?thesis by simp
      qed
    next
      case unbound: False
      let ?reqs = "nameRequests @ [\<lparr>req_id = id, req_index = texCounter\<rparr>]"
      show ?thesis
      proof (cases "nbTex \<le> texCounter + 1")
        case stop: True
        with "1.prems" True rb unbound show ?thesis
          by (subst (asm) readNames.simps) (auto simp: Let_def)
      next
        case go: False
        from "1.prems" True rb unbound go
        have "readNames buf True nbTex cache nodeSize (i + 1) (texCounter + 1) ?reqs o1
              = Inr (tc', reqs', off')"
          by (subst (asm) readNames.simps) (simp add: Let_def)
        from "1.hyps"(2) [OF True rb refl _ refl refl go this] unbound show ?thesis by auto
      qed
    qed
  qed
qed

lemma readString_ex: "\<exists>s off1. readString buf off len = Inr (s, off1)"
proof -
  have "\<exists>s off1. readString_loop buf len i off str = Inr (s, off1)" for i str
  proof (induction k \<equiv> "len - i" arbitrary: i off str)
    case 0
    then show ?case by (subst readString_loop.simps) simp
  next
    case (Suc k)
    have IH: "\<exists>s off1. readString_loop buf len (Suc i) o' s' = Inr (s, off1)" for o' s'
      using Suc.hyps(2) by (intro Suc.hyps(1)) simp
    show ?case
      by (subst readString_loop.simps) (simp add: readUInt8_total IH)
  qed
  then show ?thesis by (simp add: readString_def)
qed

lemma readUInt32_ex: "\<exists>r off1. readUInt32 buf off = Inr (r, off1)"
  by (simp add: readUInt32_total)

lemma seek_block_end:
  assumes "canRead buf off 8" and "\<not> (nodeSize < 8 \<or> 16777216 < nodeSize)"
  shows "length buf - seek buf (int (tell off + nodeSize)) < length buf - off"
  using assms by (auto simp: canRead_def seek_def tell_def)

lemma readTextures_loop_step:
  assumes "readTextures_loop buf True nbTex texCounter nameRequests cache off = Some (Inr res)"
  shows "(\<exists>ofs. res = (nameRequests, cache, ofs)) \<or>
         (\<exists>tc' reqs' cache' off'.
            readTextures_loop buf True nbTex tc' reqs' cache' off' = Some (Inr res) \<and>
            length buf - off' < length buf - off \<and> cache \<subseteq>\<^sub>m cache' \<and>
            (\<forall>r\<in>set reqs'. r \<in> set nameRequests \<or> cache (req_index r) = None))"
proof (cases "texCounter < nbTex \<and> canRead buf off 8")
  case False
  from assms have "res = (nameRequests, cache, off)"
    by (subst (asm) readTextures_loop.simps) (simp only: False simp_thms if_False option.inject sum.inject)
  then show ?thesis by blast
next
  case True
  then have cr: "canRead buf off 8" by simp
  obtain marker o1 where m: "readString buf off 4 = Inr (marker, o1)" using readString_ex by blast
  obtain nodeSize o2 where n: "readUInt32 buf o1 = Inr (nodeSize, o2)" using readUInt32_ex by blast
  let ?end = "seek buf (int (tell off + nodeSize))"
  let ?body = "(if nodeSize < 8 \<or> nodeSize > 0x1000000 then Some (Inr (nameRequests, cache, o2))
           else
             (let nodeEnd = tell off + nodeSize in
              if marker = map of_char ''TEXN'' then
                (if True \<and> cache texCounter \<noteq> None then
                   readTextures_loop buf True nbTex (texCounter + 1) nameRequests cache
                     (seek buf (int nodeEnd))
                 else
                   bindC (Some (readBytes buf o2 8)) (\<lambda>(id, off).
                   bindC (scanPVRT buf nodeEnd off) (\<lambda>(tex, off).
                     readTextures_loop buf True nbTex (texCounter + 1) nameRequests
                       (case tex of Some t \<Rightarrow> cache(texCounter \<mapsto> t) | None \<Rightarrow> cache)
                       (seek buf (int nodeEnd)))))
              else if marker = map of_char ''NAME'' then
                bindC (Some (readNames buf True nbTex cache nodeSize 0 texCounter
                               nameRequests o2))
                  (\<lambda>(texCounter, nameRequests, off).
                     readTextures_loop buf True nbTex texCounter nameRequests cache
                       (seek buf (int nodeEnd)))
              else if marker = map of_char ''PVRT'' then
                (if True \<and> cache texCounter \<noteq> None then
                   readTextures_loop buf True nbTex (texCounter + 1) nameRequests cache
                     (seek buf (int nodeEnd))
                 else
                   bindC (Some (readUInt32 buf o2)) (\<lambda>(pvrLen, off).
                     let pvrBuffer = slice buf (tell off) (tell off + pvrLen)
                     in bindC (Some (decode pvrBuffer)) (\<lambda>tex.
                          readTextures_loop buf True nbTex (texCounter + 1) nameRequests
                            (case tex of Some t \<Rightarrow> cache(texCounter \<mapsto> t) | None \<Rightarrow> cache)
                            (seek buf (int nodeEnd)))))
              else
                readTextures_loop buf True nbTex texCounter nameRequests cache
                  (seek buf (int nodeEnd))))"
  have unf: "readTextures_loop buf True nbTex texCounter nameRequests cache off = ?body"
    by (subst readTextures_loop.simps)
       (simp only: True simp_thms if_True m n bindC_simps case_prod_conv Let_def)
  show ?thesis
  proof (cases "nodeSize < 8 \<or> 16777216 < nodeSize")
    case bad: True
    from assms have "res = (nameRequests, cache, o2)"
      unfolding unf using bad by simp
    then show ?thesis by blast
  next
    case good: False
    note dec = seek_block_end [OF cr good]
    have step: "\<exists>tc' reqs' cache' off'.
            readTextures_loop buf True nbTex tc' reqs' cache' off' = Some (Inr res) \<and>
            length buf - off' < length buf - off \<and> cache \<subseteq>\<^sub>m cache' \<and>
            (\<forall>r\<in>set reqs'. r \<in> set nameRequests \<or> cache (req_index r) = None)"
      if "readTextures_loop buf True nbTex tc' reqs' cache' ?end = Some (Inr res)"
        and "cache \<subseteq>\<^sub>m cache'"
        and "\<forall>r\<in>set reqs'. r \<in> set nameRequests \<or> cache (req_index r) = None"
      for tc' reqs' cache'
      using that dec by blast
    have upd: "cache \<subseteq>\<^sub>m (case tex of Some t \<Rightarrow> cache(texCounter \<mapsto> t) | None \<Rightarrow> cache)"
      if "cache texCounter = None" for tex
      using that by (cases tex) (auto simp: map_le_def)
    from assms have b: "?body = Some (Inr res)" unfolding unf .
    consider (texn) "marker = map of_char ''TEXN''"
      | (name) "marker \<noteq> map of_char ''TEXN''" "marker = map of_char ''NAME''"
      | (pvrt) "marker \<noteq> map of_char ''TEXN''" "marker \<noteq> map of_char ''NAME''"
               "marker = map of_char ''PVRT''"
      | (other) "marker \<noteq> map of_char ''TEXN''" "marker \<noteq> map of_char ''NAME''"
               "marker \<noteq> map of_char ''PVRT''"
      by blast
    then have "\<exists>tc' reqs' cache'.
        readTextures_loop buf True nbTex tc' reqs' cache' ?end = Some (Inr res) \<and>
        cache \<subseteq>\<^sub>m cache' \<and> (\<forall>r\<in>set reqs'. r \<in> set nameRequests \<or> cache (req_index r) = None)"
    proof cases
      case texn
      show ?thesis
      proof (cases "cache texCounter \<noteq> None")
        case True
        with b good texn
        have "readTextures_loop buf True nbTex (texCounter + 1) nameRequests cache ?end
              = Some (Inr res)"
          by (simp add: Let_def)
        then show ?thesis by (intro exI [of _ "texCounter + 1"] exI [of _ nameRequests] exI [of _ cache]) simp
      next
        case False
        obtain id o3 where rb: "readBytes buf o2 8 = Inr (id, o3)" using readBytes_ex by blast
        from b good texn False rb
        have "bindC (scanPVRT buf (tell off + nodeSize) o3) (\<lambda>(tex, off').
                readTextures_loop buf True nbTex (texCounter + 1) nameRequests
                  (case tex of Some t \<Rightarrow> cache(texCounter \<mapsto> t) | None \<Rightarrow> cache) ?end)
              = Some (Inr res)"
          by (simp add: Let_def)
        then obtain tex o4 where
          "readTextures_loop buf True nbTex (texCounter + 1) nameRequests
             (case tex of Some t \<Rightarrow> cache(texCounter \<mapsto> t) | None \<Rightarrow> cache) ?end = Some (Inr res)"
          by (auto simp: bindC_def split: option.splits sum.splits)
        with upd [of tex] False show ?thesis
          by (intro exI [of _ "texCounter + 1"] exI [of _ nameRequests]
                exI [of _ "case tex of Some t \<Rightarrow> cache(texCounter \<mapsto> t) | None \<Rightarrow> cache"]) simp
      qed
    next
      case name
      from b good name
      have "bindC (Some (readNames buf True nbTex cache nodeSize 0 texCounter nameRequests o2))
              (\<lambda>(texCounter, nameRequests, off').
                 readTextures_loop buf True nbTex texCounter nameRequests cache ?end)
            = Some (Inr res)"
        by (simp add: Let_def)
      then obtain tc' reqs' o3 where
        rn: "readNames buf True nbTex cache nodeSize 0 texCounter nameRequests o2 = Inr (tc', reqs', o3)"
        and l: "readTextures_loop buf True nbTex tc' reqs' cache ?end = Some (Inr res)"
        by (auto simp: bindC_def split: option.splits sum.splits)
      from readNames_new_unbound [OF rn] l show ?thesis
        by (intro exI [of _ tc'] exI [of _ reqs'] exI [of _ cache]) simp
    next
      case pvrt
      show ?thesis
      proof (cases "cache texCounter \<noteq> None")
        case True
        with b good pvrt
        have "readTextures_loop buf True nbTex (texCounter + 1) nameRequests cache ?end
              = Some (Inr res)"
          by (simp add: Let_def)
        then show ?thesis by (intro exI [of _ "texCounter + 1"] exI [of _ nameRequests] exI [of _ cache]) simp
      next
        case False
        obtain pvrLen o3 where pl: "readUInt32 buf o2 = Inr (pvrLen, o3)" using readUInt32_ex by blast
        from b good pvrt False pl
        have "bindC (Some (decode (slice buf (tell o3) (tell o3 + pvrLen)))) (\<lambda>tex.
                readTextures_loop buf True nbTex (texCounter + 1) nameRequests
                  (case tex of Some t \<Rightarrow> cache(texCounter \<mapsto> t) | None \<Rightarrow> cache) ?end)
              = Some (Inr res)"
          by (simp add: Let_def)
        then obtain tex where
          "readTextures_loop buf True nbTex (texCounter + 1) nameRequests
             (case tex of Some t \<Rightarrow> cache(texCounter \<mapsto> t) | None \<Rightarrow> cache) ?end = Some (Inr res)"
          by (auto simp: bindC_def split: option.splits sum.splits)
        with upd [of tex] False show ?thesis
          by (intro exI [of _ "texCounter + 1"] exI [of _ nameRequests]
                exI [of _ "case tex of Some t \<Rightarrow> cache(texCounter \<mapsto> t) | None \<Rightarrow> cache"]) simp
      qed
    next
      case other
      with b good
      have "readTextures_loop buf True nbTex texCounter nameRequests cache ?end = Some (Inr res)"
        by (simp add: Let_def)
      then show ?thesis by (intro exI [of _ texCounter] exI [of _ nameRequests] exI [of _ cache]) simp
    qed
    then show ?thesis using step by blast
  qed
qed

lemma readTextures_loop_extends:
  assumes "readTextures_loop buf True nbTex texCounter nameRequests cache off
             = Some (Inr (reqs', cache', off'))"
    and "cache0 \<subseteq>\<^sub>m cache"
    and "\<forall>r\<in>set nameRequests. cache0 (req_index r) = None"
  shows "cache0 \<subseteq>\<^sub>m cache' \<and> (\<forall>r\<in>set reqs'. cache0 (req_index r) = None)"
  using assms
proof (induction k \<equiv> "length buf - off" arbitrary: texCounter nameRequests cache off
       rule: less_induct)
  case less
  from readTextures_loop_step [OF less.prems(1)]
  consider (stop) ofs where "(reqs', cache', off') = (nameRequests, cache, ofs)"
    | (go) tc1 reqs1 cache1 off1 where
        "readTextures_loop buf True nbTex tc1 reqs1 cache1 off1 = Some (Inr (reqs', cache', off'))"
        "length buf - off1 < length buf - off" "cache \<subseteq>\<^sub>m cache1"
        "\<forall>r\<in>set reqs1. r \<in> set nameRequests \<or> cache (req_index r) = None"
    by blast
  then show ?case
  proof cases
    case stop
    with less.prems show ?thesis by simp
  next
    case go
    have a: "cache0 \<subseteq>\<^sub>m cache1"
      using less.prems(2) go(3) by (rule map_le_trans)
    have b: "\<forall>r\<in>set reqs1. cache0 (req_index r) = None"
    proof
      fix r assume "r \<in> set reqs1"
      with go(4) have "r \<in> set nameRequests \<or> cache (req_index r) = None" by (rule bspec)
      then show "cache0 (req_index r) = None"
      proof
        assume "r \<in> set nameRequests"
        with less.prems(3) show ?thesis by blast
      next
        assume n: "cache (req_index r) = None"
        show ?thesis
        proof (rule ccontr)
          assume "cache0 (req_index r) \<noteq> None"
          then have "req_index r \<in> dom cache0" by blast
          with less.prems(2) have "cache (req_index r) = cache0 (req_index r)"
            by (simp add: map_le_def)
          with n \<open>cache0 (req_index r) \<noteq> None\<close> show False by simp
        qed
      qed
    qed
    from less.hyps [OF go(2) go(1) a b] show ?thesis .
  qed
qed

lemma resolveRequest_extends:
  assumes "resolveRequest sec req cache = Inr cache'"
    and "cache0 \<subseteq>\<^sub>m cache" and "cache0 (req_index req) = None"
  shows "cache0 \<subseteq>\<^sub>m cache'"
proof -
  from assms(1) obtain tex where
    "cache' = (case tex of Some t \<Rightarrow> cache(req_index req \<mapsto> t) | None \<Rightarrow> cache)"
    unfolding resolveRequest_def by (auto elim!: bindE_eq_Inr)
  with assms(2,3) show ?thesis
    by (cases tex) (auto simp: map_le_def)
qed

lemma resolveRequests_extends:
  "resolveRequests sec reqs cache = Inr cache' \<Longrightarrow> cache0 \<subseteq>\<^sub>m cache \<Longrightarrow>
   \<forall>r\<in>set reqs. cache0 (req_index r) = None \<Longrightarrow> cache0 \<subseteq>\<^sub>m cache'"
proof (induction reqs arbitrary: cache)
  case Nil
  then show ?case by simp
next
  case (Cons req reqs)
  from Cons.prems(1) obtain c1 where
    r: "resolveRequest sec req cache = Inr c1" and rs: "resolveRequests sec reqs c1 = Inr cache'"
    by (auto elim!: bindE_eq_Inr)
  from resolveRequest_extends [OF r Cons.prems(2)] Cons.prems(3)
  have "cache0 \<subseteq>\<^sub>m c1" by simp
  from Cons.IH [OF rs this] Cons.prems(3) show ?case by simp
qed

lemma bindC_eq_Some_Inr:
  "bindC m f = Some (Inr r) \<Longrightarrow> (\<And>x. m = Some (Inr x) \<Longrightarrow> f x = Some (Inr r) \<Longrightarrow> P) \<Longrightarrow> P"
  by (auto simp: bindC_def split: option.splits sum.splits)

lemma readTextures_skipExisting_extends:
  assumes "readTextures buf off secondaryReader True cache = Some (Inr (cache', off'))"
  shows "cache \<subseteq>\<^sub>m cache'"
proof -
  obtain sig o1 where s: "readString buf off 4 = Inr (sig, o1)" using readString_ex by blast
  show ?thesis
  proof (cases "sig \<noteq> map of_char ''TEXD''")
    case True
    with assms s have "cache' = cache" by (simp add: readTextures_def Let_def)
    then show ?thesis by simp
  next
    case False
    obtain headerSize o2 where h: "readUInt32 buf o1 = Inr (headerSize, o2)"
      using readUInt32_ex by blast
    obtain nbTex o3 where n: "readUInt32 buf o2 = Inr (nbTex, o3)" using readUInt32_ex by blast
    from assms s False h n
    have "bindC (readTextures_loop buf True nbTex 0 [] cache
                   (seek buf (int (tell off + headerSize))))
            (\<lambda>(nameRequests, cache, off).
               case secondaryReader of
                 Some sec \<Rightarrow>
                   if nameRequests \<noteq> [] then
                     bindC (Some (resolveRequests sec nameRequests cache)) (\<lambda>cache.
                       Some (Inr (cache, off)))
                   else Some (Inr (cache, off))
               | None \<Rightarrow> Some (Inr (cache, off))) = Some (Inr (cache', off'))"
      by (simp add: readTextures_def Let_def)
    then obtain reqs c1 o4 where
      l: "readTextures_loop buf True nbTex 0 [] cache (seek buf (int (tell off + headerSize)))
            = Some (Inr (reqs, c1, o4))"
      and r: "(case secondaryReader of
                 Some sec \<Rightarrow>
                   if reqs \<noteq> [] then
                     bindC (Some (resolveRequests sec reqs c1)) (\<lambda>cache. Some (Inr (cache, o4)))
                   else Some (Inr (c1, o4))
               | None \<Rightarrow> Some (Inr (c1, o4))) = Some (Inr (cache', off'))"
      by (auto elim!: bindC_eq_Some_Inr)
    from readTextures_loop_extends [OF l, of cache]
    have inv: "cache \<subseteq>\<^sub>m c1" "\<forall>r\<in>set reqs. cache (req_index r) = None" by simp_all
    show ?thesis
    proof (cases secondaryReader)
      case None
      with r inv show ?thesis by simp
    next
      case (Some sec)
      show ?thesis
      proof (cases "reqs \<noteq> []")
        case False
        with r Some inv show ?thesis by simp
      next
        case True
        with r Some have "resolveRequests sec reqs c1 = Inr cache'"
          by (auto elim!: bindC_eq_Some_Inr)
        from resolveRequests_extends [OF this inv] show ?thesis .
      qed
    qed
  qed
qed

text \<open>
  Claim C9. With a time-variant pack, the texture step of \<open>load\<close> is the pass
  against the time-variant pack followed by the pass against the base pack with
  \<open>skipExisting\<close> set. Whenever the step returns, the cache \<open>cache1\<close> left by
  the first pass and the final cache \<open>cache2\<close> are related as follows: every
  slot bound in \<open>cache1\<close> has the same texture in \<open>cache2\<close>, and every slot
  whose binding differs between the two was unbound in \<open>cache1\<close>. (The step
  does not return when a pass throws or when the scan of a \<open>TEXN\<close> block does
  not terminate.)
\<close>

theorem C9_base_pass_fills_gaps:
  assumes "loadTextures buf texOffset baseReader (Some time) off cache0 = Some (Inr (cache2, off'))"
    and "0 < texOffset" and "texOffset < length buf"
  shows "\<exists>cache1 o1 o2.
           readTextures buf (seek buf (int texOffset)) (Some time) False cache0
             = Some (Inr (cache1, o1)) \<and>
           readTextures buf (seek buf (int texOffset)) baseReader True cache1
             = Some (Inr (cache2, o2)) \<and>
           (\<forall>k. (cache1 k \<noteq> None \<longrightarrow> cache2 k = cache1 k) \<and>
                (cache2 k \<noteq> cache1 k \<longrightarrow> cache1 k = None))"
proof -
  from assms obtain cache1 o1 o2 where
    p1: "readTextures buf (seek buf (int texOffset)) (Some time) False cache0
           = Some (Inr (cache1, o1))"
    and p2: "readTextures buf (seek buf (int texOffset)) baseReader True cache1
           = Some (Inr (cache2, o2))"
    unfolding loadTextures_def Let_def
    by (auto elim!: bindC_eq_Some_Inr)
  from readTextures_skipExisting_extends [OF p2] have le: "cache1 \<subseteq>\<^sub>m cache2" .
  have "(cache1 k \<noteq> None \<longrightarrow> cache2 k = cache1 k) \<and> (cache2 k \<noteq> cache1 k \<longrightarrow> cache1 k = None)" for k
    using le by (auto simp: map_le_def dom_def)
  with p1 p2 show ?thesis by blast
qed

lemma pass1_eval:
  "readTextures dir_buffer 12 (Some time_pack) False Map.empty =
     Some (Inr (Map.empty(0 \<mapsto> time_texture), 40))"
  by (simp add: readTextures_def readTextures_loop.simps readNames.simps resolveRequest_def
        packLookup.simps new_DataView_def getUint32_def readBytes_total readUInt32_total
        slice_def tell_def Let_def dir_buffer_def time_pack_def time_texture_def
        decode_def decode_eval replicate_8_zero)

lemma pass2_eval:
  "readTextures dir_buffer 12 (Some base_pack) True (Map.empty(0 \<mapsto> time_texture)) =
     Some (Inr (Map.empty(0 \<mapsto> time_texture), 40))"
  by (simp add: readTextures_def readTextures_loop.simps readNames.simps
        readBytes_total readUInt32_total
        tell_def Let_def dir_buffer_def readString_def readString_loop.simps readUInt8_total
        canRead_def seek_def)

text \<open>
  The witness: both packs hold the identifier of slot 0; the slot keeps the
  texture of the time-variant pack.
\<close>

theorem C9_witness:
  "loadTextures dir_buffer 12 (Some base_pack) (Some time_pack) 12 Map.empty
     = Some (Inr (Map.empty(0 \<mapsto> time_texture), 12)) \<and>
   (\<exists>cache1 o1 o2.
      readTextures dir_buffer (seek dir_buffer (int 12)) (Some time_pack) False Map.empty
        = Some (Inr (cache1, o1)) \<and>
      readTextures dir_buffer (seek dir_buffer (int 12)) (Some base_pack) True cache1
        = Some (Inr (Map.empty(0 \<mapsto> time_texture), o2)) \<and>
      cache1 0 = Some time_texture)"
proof -
  have sk: "seek dir_buffer (int 12) = 12" by (simp add: seek_def dir_buffer_def)
  have L: "loadTextures dir_buffer 12 (Some base_pack) (Some time_pack) 12 Map.empty
     = Some (Inr (Map.empty(0 \<mapsto> time_texture), 12))"
    unfolding loadTextures_def Let_def sk tell_def
    by (simp add: pass1_eval pass2_eval) (simp add: dir_buffer_def)
  have b: "0 < (12::nat)" "12 < length dir_buffer" by (simp_all add: dir_buffer_def)
  from C9_base_pass_fills_gaps [OF L b] obtain cache1 o1 o2 where
    p1: "readTextures dir_buffer (seek dir_buffer (int 12)) (Some time_pack) False Map.empty
           = Some (Inr (cache1, o1))"
    and p2: "readTextures dir_buffer (seek dir_buffer (int 12)) (Some base_pack) True cache1
           = Some (Inr (Map.empty(0 \<mapsto> time_texture), o2))"
    by blast
  from p1 have "cache1 = Map.empty(0 \<mapsto> time_texture)"
    unfolding sk pass1_eval by simp
  then have "cache1 0 = Some time_texture" by simp
  with L p1 p2 show ?thesis by blast
qed

end
